theory Spec2Isabelle
  imports
    Main
    "HOL-Library.Word"
    "HOL-Library.Sublist"
    "HOL-Library.Char_ord"
    "HOL-Library.List_Lexorder"
    "HOL-Library.AList"
begin

section \<open>Shared data model\<close>

text \<open>
  Go's \<open>int64\<close> is a 64-bit word read as two's complement: \<open>+\<close> wraps, comparisons
  go through \<open>sint\<close>. Go strings and byte slices are both byte sequences, so payloads,
  names, paths and keys are all \<open>string\<close> (a \<open>char\<close> is one byte).
\<close>

type_synonym int64 = "64 word"

text \<open>
  The failure classes of the two services. Every error the Go code builds with
  \<open>fmt.Errorf("...: %w", err)\<close> keeps the class of the error it wraps; an error that wraps
  \<open>fs.ErrNotExist\<close> is \<open>NotFoundError\<close>. \<open>Panic\<close> stands for the run-time panic of
  \<open>slices.Max\<close> on an empty slice.
\<close>

datatype error = ValidationError | NotFoundError | StorageIOError | Panic

text \<open>\<open>genai.Blob\<close> and \<open>genai.Part\<close>: a part carries inline data or text.\<close>

record Blob =
  Data :: string
  MIMEType :: string

record Part =
  InlineData :: "Blob option"
  Text :: string

text \<open>\<open>genai.NewPartFromBytes\<close>: a part holding inline data of the given MIME type.\<close>

definition NewPartFromBytes :: "string \<Rightarrow> string \<Rightarrow> Part" where
  "NewPartFromBytes d ct = \<lparr>InlineData = Some \<lparr>Data = d, MIMEType = ct\<rparr>, Text = []\<rparr>"

text \<open>
  The request structs of \<open>google.golang.org/adk/artifact\<close>. \<open>VersionsRequest\<close> is the bare
  identity; \<open>LoadRequest\<close> and \<open>DeleteRequest\<close> add a version (0 is "not given");
  \<open>SaveRequest\<close> adds the part to store.
\<close>

record VersionsRequest =
  AppName :: string
  UserID :: string
  SessionID :: string
  FileName :: string

record LoadRequest = VersionsRequest +
  Version :: int64

type_synonym DeleteRequest = LoadRequest

record SaveRequest = LoadRequest +
  Part :: Part

text \<open>
  \<open>req.Validate()\<close> belongs to the imported artifact package: it rejects a request with an
  empty identity field, and a save request whose part carries neither inline data nor text.
\<close>

definition Validate :: "'a VersionsRequest_scheme \<Rightarrow> bool" where
  "Validate r \<longleftrightarrow> AppName r \<noteq> [] \<and> UserID r \<noteq> [] \<and> SessionID r \<noteq> [] \<and> FileName r \<noteq> []"

definition ValidateSave :: "SaveRequest \<Rightarrow> bool" where
  "ValidateSave r \<longleftrightarrow> Validate r \<and> (InlineData (Part r) \<noteq> None \<or> Text (Part r) \<noteq> [])"

text \<open>The identity fields of a request, as the services copy them into a \<open>VersionsRequest\<close>.\<close>

definition versionsRequest :: "'a VersionsRequest_scheme \<Rightarrow> VersionsRequest" where
  "versionsRequest r =
     \<lparr>AppName = AppName r, UserID = UserID r, SessionID = SessionID r, FileName = FileName r\<rparr>"

subsection \<open>Decimal rendering and parsing of versions\<close>

text \<open>Decimal digits are the bytes 48 to 57.\<close>

definition digit_char :: "nat \<Rightarrow> char" where
  "digit_char d = char_of (48 + d)"

definition digit_val :: "char \<Rightarrow> nat option" where
  "digit_val c =
     (let n = (of_char c :: nat) in if 48 \<le> n \<and> n \<le> 57 then Some (n - 48) else None)"

definition is_digit :: "char \<Rightarrow> bool" where
  "is_digit c \<longleftrightarrow> digit_val c \<noteq> None"

text \<open>The decimal digits of a natural number, most significant first.\<close>

function digits10 :: "nat \<Rightarrow> string" where
  "digits10 n = (if n < 10 then [digit_char n] else digits10 (n div 10) @ [digit_char (n mod 10)])"
  by pat_completeness auto
termination
  by (relation "measure id") auto

declare digits10.simps [simp del]

text \<open>\<open>fmt.Sprintf("%d", v)\<close> for a signed integer.\<close>

definition fmt_d :: "int \<Rightarrow> string" where
  "fmt_d i = (if i < 0 then CHR ''-'' # digits10 (nat (- i)) else digits10 (nat i))"

text \<open>The value of a digit string read left to right; \<open>None\<close> at the first non-digit.\<close>

fun parse_digits :: "nat \<Rightarrow> string \<Rightarrow> nat option" where
  "parse_digits acc [] = Some acc"
| "parse_digits acc (c # cs) =
     (case digit_val c of None \<Rightarrow> None | Some d \<Rightarrow> parse_digits (acc * 10 + d) cs)"

text \<open>
  \<open>strconv.ParseInt(s, 10, 64)\<close>: an optional sign, then at least one decimal digit and
  nothing else; a value outside the \<open>int64\<close> range is an error too. \<open>None\<close> is the error.
\<close>

definition ParseInt :: "string \<Rightarrow> int64 option" where
  "ParseInt s =
     (case s of
        [] \<Rightarrow> None
      | c # cs \<Rightarrow>
          (let neg = (c = CHR ''-'');
               ds = (if c = CHR ''+'' \<or> c = CHR ''-'' then cs else s)
           in if ds = [] then None
              else (case parse_digits 0 ds of
                      None \<Rightarrow> None
                    | Some n \<Rightarrow>
                        (let i = (if neg then - int n else int n)
                         in if - (2 ^ 63) \<le> i \<and> i < 2 ^ 63 then Some (word_of_int i)
                            else None))))"

text \<open>\<open>slices.Max\<close> on a non-empty slice \<open>v # vs\<close>, under the signed order.\<close>

fun slices_Max :: "int64 \<Rightarrow> int64 list \<Rightarrow> int64" where
  "slices_Max m [] = m"
| "slices_Max m (v # vs) = slices_Max (if sint m < sint v then v else m) vs"

subsection \<open>Strings\<close>

text \<open>\<open>strings.Split(s, "/")\<close>: never empty; the empty string splits into one empty segment.\<close>

fun split_sep :: "string \<Rightarrow> string list" where
  "split_sep [] = [[]]"
| "split_sep (c # cs) =
     (if c = CHR ''/'' then [] # split_sep cs
      else (case split_sep cs of [] \<Rightarrow> [[c]] | x # xs \<Rightarrow> (c # x) # xs))"

text \<open>\<open>strings.Join(elems, "/")\<close>.\<close>

fun join_sep :: "string list \<Rightarrow> string" where
  "join_sep [] = []"
| "join_sep [x] = x"
| "join_sep (x # y # ys) = x @ CHR ''/'' # join_sep (y # ys)"

text \<open>Both services: a file name that starts with \<open>user:\<close> names a user-scoped artifact.\<close>

definition fileHasUserNamespace :: "string \<Rightarrow> bool" where
  "fileHasUserNamespace filename \<longleftrightarrow> prefix ''user:'' filename"

section \<open>The object-store service\<close>

subsection \<open>Keys\<close>

definition buildKey :: "string \<Rightarrow> string \<Rightarrow> string \<Rightarrow> string \<Rightarrow> int64 \<Rightarrow> string" where
  "buildKey appName userID sessionID fileName version =
     (if fileHasUserNamespace fileName
      then appName @ ''/'' @ userID @ ''/user/'' @ fileName @ ''/'' @ fmt_d (sint version)
      else appName @ ''/'' @ userID @ ''/'' @ sessionID @ ''/'' @ fileName @ ''/''
             @ fmt_d (sint version))"

definition buildKeyPrefix :: "string \<Rightarrow> string \<Rightarrow> string \<Rightarrow> string \<Rightarrow> string" where
  "buildKeyPrefix appName userID sessionID fileName =
     (if fileHasUserNamespace fileName
      then appName @ ''/'' @ userID @ ''/user/'' @ fileName @ ''/''
      else appName @ ''/'' @ userID @ ''/'' @ sessionID @ ''/'' @ fileName @ ''/'')"

subsection \<open>The bucket\<close>

text \<open>
  The bucket of \<open>gocloud.dev/blob\<close> is outside the repository. It is modelled as a table
  from keys to objects (content type and body), read through \<open>map_of\<close>, together with the
  failures the store may answer with: the prefixes whose listing fails and the keys whose
  write, read or delete fails for a reason other than absence (\<open>OtherCode\<close>). Opening a writer, writing and closing it are one
  step that stores the object or fails and stores nothing; opening a reader, reading all of
  it and closing are one step too.
\<close>

datatype gcerror = NotFound | OtherCode

record s3object =
  ContentType :: string
  Body :: string

record bucket =
  objects :: "(string \<times> s3object) list"
  list_fails :: "string list"
  write_fails :: "string list"
  read_fails :: "string list"
  delete_fails :: "string list"

text \<open>
  \<open>bucket.List\<close> with a prefix, iterated to the end: the keys that start with the prefix, in
  the lexicographic order of their bytes, each once.
\<close>

definition bucket_List :: "bucket \<Rightarrow> string \<Rightarrow> gcerror + string list" where
  "bucket_List b pfx =
     (if pfx \<in> set (list_fails b) then Inl OtherCode
      else Inr (sort (remdups (filter (prefix pfx) (map fst (objects b))))))"

definition bucket_Write :: "bucket \<Rightarrow> string \<Rightarrow> string \<Rightarrow> string \<Rightarrow> gcerror + bucket" where
  "bucket_Write b key ct d =
     (if key \<in> set (write_fails b) then Inl OtherCode
      else Inr (b\<lparr>objects := AList.update key \<lparr>ContentType = ct, Body = d\<rparr> (objects b)\<rparr>))"

definition bucket_Read :: "bucket \<Rightarrow> string \<Rightarrow> gcerror + s3object" where
  "bucket_Read b key =
     (if key \<in> set (read_fails b) then Inl OtherCode
      else (case map_of (objects b) key of None \<Rightarrow> Inl NotFound | Some ob \<Rightarrow> Inr ob))"

definition bucket_Delete :: "bucket \<Rightarrow> string \<Rightarrow> gcerror + bucket" where
  "bucket_Delete b key =
     (if key \<in> set (delete_fails b) then Inl OtherCode
      else (case map_of (objects b) key of
              None \<Rightarrow> Inl NotFound
            | Some ob \<Rightarrow> Inr (b\<lparr>objects := AList.delete key (objects b)\<rparr>)))"

subsection \<open>Operations\<close>

text \<open>The loop of \<open>versions\<close>: the last segment of each key, kept when it parses.\<close>

fun key_versions :: "string list \<Rightarrow> int64 list" where
  "key_versions [] = []"
| "key_versions (k # ks) =
     (case ParseInt (last (split_sep k)) of
        None \<Rightarrow> key_versions ks
      | Some v \<Rightarrow> v # key_versions ks)"

definition s3_versions :: "bucket \<Rightarrow> 'a VersionsRequest_scheme \<Rightarrow> error + int64 list" where
  "s3_versions b req =
     (if \<not> Validate req then Inl ValidationError
      else (case bucket_List b
                   (buildKeyPrefix (AppName req) (UserID req) (SessionID req) (FileName req)) of
              Inl e \<Rightarrow> Inl StorageIOError
            | Inr keys \<Rightarrow> Inr (key_versions keys)))"

definition s3_Versions :: "bucket \<Rightarrow> 'a VersionsRequest_scheme \<Rightarrow> error + int64 list" where
  "s3_Versions b req =
     (case s3_versions b req of
        Inl e \<Rightarrow> Inl e
      | Inr vs \<Rightarrow> if vs = [] then Inl NotFoundError else Inr vs)"

text \<open>\<open>Save\<close> returns the response (the assigned version) or the error, and the bucket after.\<close>

definition s3_Save :: "bucket \<Rightarrow> SaveRequest \<Rightarrow> (error + int64) \<times> bucket" where
  "s3_Save b req =
     (if \<not> ValidateSave req then (Inl ValidationError, b)
      else (case s3_versions b (versionsRequest req) of
              Inl e \<Rightarrow> (Inl e, b)
            | Inr vs \<Rightarrow>
                (let nextVersion = (case vs of [] \<Rightarrow> 1 | v # rest \<Rightarrow> slices_Max v rest + 1);
                     key = buildKey (AppName req) (UserID req) (SessionID req) (FileName req)
                             nextVersion
                 in (case InlineData (Part req) of
                       Some bl \<Rightarrow>
                         (case bucket_Write b key (MIMEType bl) (Data bl) of
                            Inl e \<Rightarrow> (Inl StorageIOError, b)
                          | Inr b' \<Rightarrow> (Inr nextVersion, b'))
                     | None \<Rightarrow>
                         (case bucket_Write b key ''text/plain'' (Text (Part req)) of
                            Inl e \<Rightarrow> (Inl StorageIOError, b)
                          | Inr b' \<Rightarrow> (Inr nextVersion, b'))))))"

text \<open>A sequence of saves, one request after the other, until one fails.\<close>

fun s3_save_all :: "bucket \<Rightarrow> SaveRequest list \<Rightarrow> (error + int64 list) \<times> bucket" where
  "s3_save_all b [] = (Inr [], b)"
| "s3_save_all b (req # reqs) =
     (case s3_Save b req of
        (Inl e, b') \<Rightarrow> (Inl e, b')
      | (Inr v, b') \<Rightarrow>
          (case s3_save_all b' reqs of
             (Inl e, b'') \<Rightarrow> (Inl e, b'')
           | (Inr vs, b'') \<Rightarrow> (Inr (v # vs), b'')))"

text \<open>The block of \<open>Load\<close> that resolves version 0 to the latest version.\<close>

definition s3_loadVersion :: "bucket \<Rightarrow> LoadRequest \<Rightarrow> error + int64" where
  "s3_loadVersion b req =
     (if Version req = 0
      then (case s3_versions b (versionsRequest req) of
              Inl e \<Rightarrow> Inl e
            | Inr [] \<Rightarrow> Inl NotFoundError
            | Inr (v # rest) \<Rightarrow> Inr (slices_Max v rest))
      else Inr (Version req))"

definition s3_Load :: "bucket \<Rightarrow> LoadRequest \<Rightarrow> error + Part" where
  "s3_Load b req =
     (if \<not> Validate req then Inl ValidationError
      else (case s3_loadVersion b req of
              Inl e \<Rightarrow> Inl e
            | Inr version \<Rightarrow>
                (case bucket_Read b
                        (buildKey (AppName req) (UserID req) (SessionID req) (FileName req)
                           version) of
                   Inl NotFound \<Rightarrow> Inl NotFoundError
                 | Inl OtherCode \<Rightarrow> Inl StorageIOError
                 | Inr ob \<Rightarrow> Inr (NewPartFromBytes (Body ob) (ContentType ob)))))"

text \<open>
  The fan-out of the whole-artifact delete, one key per listed version. The group returns
  its first failure; a key the store reports absent is not a failure. The deletions are
  run here in list order and stop at the first failure.
\<close>

fun delete_all :: "bucket \<Rightarrow> string list \<Rightarrow> error option \<times> bucket" where
  "delete_all b [] = (None, b)"
| "delete_all b (key # keys) =
     (case bucket_Delete b key of
        Inl NotFound \<Rightarrow> delete_all b keys
      | Inl OtherCode \<Rightarrow> (Some StorageIOError, b)
      | Inr b' \<Rightarrow> delete_all b' keys)"

definition s3_Delete :: "bucket \<Rightarrow> DeleteRequest \<Rightarrow> error option \<times> bucket" where
  "s3_Delete b req =
     (if \<not> Validate req then (Some ValidationError, b)
      else if Version req \<noteq> 0
      then (case bucket_Delete b
                   (buildKey (AppName req) (UserID req) (SessionID req) (FileName req)
                      (Version req)) of
              Inl NotFound \<Rightarrow> (None, b)
            | Inl OtherCode \<Rightarrow> (Some StorageIOError, b)
            | Inr b' \<Rightarrow> (None, b'))
      else (case s3_versions b (versionsRequest req) of
              Inl e \<Rightarrow> (Some e, b)
            | Inr vs \<Rightarrow>
                delete_all b
                  (map (buildKey (AppName req) (UserID req) (SessionID req) (FileName req)) vs)))"

section \<open>The file-system service\<close>

subsection \<open>Paths\<close>

text \<open>
  \<open>path/filepath\<close> on a system whose separator is \<open>/\<close>. \<open>Clean\<close> works through the
  elements of a path from the left: an empty element and \<open>.\<close> are dropped; \<open>..\<close> removes
  the element before it, is dropped at the root of a rooted path, and is kept at the front
  of a path that is not rooted.
\<close>

definition clean_step :: "bool \<Rightarrow> string list \<Rightarrow> string \<Rightarrow> string list" where
  "clean_step rooted out seg =
     (if seg = [] \<or> seg = ''.'' then out
      else if seg = ''..''
      then (if out \<noteq> [] \<and> last out \<noteq> ''..'' then butlast out
            else if rooted then out
            else out @ [seg])
      else out @ [seg])"

definition clean_segs :: "bool \<Rightarrow> string list \<Rightarrow> string list" where
  "clean_segs rooted segs = foldl (clean_step rooted) [] segs"

definition is_rooted :: "string \<Rightarrow> bool" where
  "is_rooted p \<longleftrightarrow> (case p of [] \<Rightarrow> False | c # cs \<Rightarrow> c = CHR ''/'')"

definition render :: "bool \<Rightarrow> string list \<Rightarrow> string" where
  "render rooted segs = (if rooted then ''/'' else []) @ join_sep segs"

definition Clean :: "string \<Rightarrow> string" where
  "Clean p =
     (let out = render (is_rooted p) (clean_segs (is_rooted p) (split_sep p))
      in if out = [] then ''.'' else out)"

text \<open>\<open>filepath.Join\<close>: leading empty elements are ignored, the rest joined and cleaned.\<close>

definition Join :: "string list \<Rightarrow> string" where
  "Join elem =
     (case dropWhile (\<lambda>e. e = []) elem of [] \<Rightarrow> [] | e # es \<Rightarrow> Clean (join_sep (e # es)))"

text \<open>\<open>filepath.Dir\<close>: the path up to its last separator, cleaned.\<close>

definition Dir :: "string \<Rightarrow> string" where
  "Dir p = Clean (rev (dropWhile (\<lambda>c. c \<noteq> CHR ''/'') (rev p)))"

definition buildPath ::
  "string \<Rightarrow> string \<Rightarrow> string \<Rightarrow> string \<Rightarrow> string \<Rightarrow> int64 \<Rightarrow> string" where
  "buildPath rootDir appName userID sessionID fileName version =
     (if fileHasUserNamespace fileName
      then Join [rootDir, appName, userID, ''user'', fileName, fmt_d (sint version)]
      else Join [rootDir, appName, userID, sessionID, fileName, fmt_d (sint version)])"

definition buildDir :: "string \<Rightarrow> string \<Rightarrow> string \<Rightarrow> string \<Rightarrow> string \<Rightarrow> string" where
  "buildDir rootDir appName userID sessionID fileName =
     (if fileHasUserNamespace fileName
      then Join [rootDir, appName, userID, ''user'', fileName]
      else Join [rootDir, appName, userID, sessionID, fileName])"

subsection \<open>The file system\<close>

text \<open>
  The operating system is outside the repository. A file system is modelled as a table from
  locations to nodes, read through \<open>map_of\<close>, and the locations whose reads and whose
  changes the system refuses (permissions, device errors). A location is what a path string
  resolves to: whether it starts at the root, and its elements, resolved as \<open>Clean\<close> does.
  The root and the working directory (no elements) always exist. \<open>ENOENT\<close> is the one
  error \<open>os.IsNotExist\<close> accepts; \<open>EOTHER\<close> is any other.
\<close>

datatype node = File string | Directory

datatype os_error = ENOENT | EOTHER

type_synonym location = "bool \<times> string list"

record filesystem =
  nodes :: "(location \<times> node) list"
  read_denied :: "location list"
  write_denied :: "location list"

definition resolve :: "string \<Rightarrow> location" where
  "resolve p = (is_rooted p, clean_segs (is_rooted p) (split_sep p))"

definition parent :: "location \<Rightarrow> location" where
  "parent l = (fst l, butlast (snd l))"

definition node_at :: "filesystem \<Rightarrow> location \<Rightarrow> node option" where
  "node_at fs l = (if snd l = [] then Some Directory else map_of (nodes fs) l)"

definition is_file :: "filesystem \<Rightarrow> location \<Rightarrow> bool" where
  "is_file fs l \<longleftrightarrow> (case node_at fs l of Some (File d) \<Rightarrow> True | _ \<Rightarrow> False)"

text \<open>The error for a location with no node: a file on the way to it is not \<open>ENOENT\<close>.\<close>

definition absent_error :: "filesystem \<Rightarrow> location \<Rightarrow> os_error" where
  "absent_error fs l =
     (if list_ex (\<lambda>q. is_file fs (fst l, q)) (butlast (prefixes (snd l))) then EOTHER
      else ENOENT)"

text \<open>The entries of a directory: name and whether it is a directory, sorted by name.\<close>

definition dir_entries :: "filesystem \<Rightarrow> location \<Rightarrow> (string \<times> bool) list" where
  "dir_entries fs l =
     sort_key fst
       (map (\<lambda>q. (last (snd q), node_at fs q = Some Directory))
          (filter (\<lambda>q. snd q \<noteq> [] \<and> parent q = l) (remdups (map fst (nodes fs)))))"

definition ReadFile :: "filesystem \<Rightarrow> string \<Rightarrow> os_error + string" where
  "ReadFile fs path =
     (let l = resolve path
      in if l \<in> set (read_denied fs) then Inl EOTHER
         else (case node_at fs l of
                 Some (File d) \<Rightarrow> Inr d
               | Some Directory \<Rightarrow> Inl EOTHER
               | None \<Rightarrow> Inl (absent_error fs l)))"

definition ReadDir :: "filesystem \<Rightarrow> string \<Rightarrow> os_error + (string \<times> bool) list" where
  "ReadDir fs path =
     (let l = resolve path
      in if l \<in> set (read_denied fs) then Inl EOTHER
         else (case node_at fs l of
                 Some Directory \<Rightarrow> Inr (dir_entries fs l)
               | Some (File d) \<Rightarrow> Inl EOTHER
               | None \<Rightarrow> Inl (absent_error fs l)))"

text \<open>\<open>os.WriteFile\<close> creates or replaces a file in an existing directory.\<close>

definition WriteFile :: "filesystem \<Rightarrow> string \<Rightarrow> string \<Rightarrow> os_error option \<times> filesystem" where
  "WriteFile fs path d =
     (let l = resolve path
      in if l \<in> set (write_denied fs) then (Some EOTHER, fs)
         else if node_at fs l = Some Directory then (Some EOTHER, fs)
         else if node_at fs (parent l) \<noteq> Some Directory then (Some (absent_error fs l), fs)
         else (None, fs\<lparr>nodes := AList.update l (File d) (nodes fs)\<rparr>))"

text \<open>
  \<open>os.MkdirAll\<close> creates the directory and every missing one above it, from the top; it
  fails at a file on the way, keeping what it has created.
\<close>

fun mkdir_chain :: "filesystem \<Rightarrow> location list \<Rightarrow> os_error option \<times> filesystem" where
  "mkdir_chain fs [] = (None, fs)"
| "mkdir_chain fs (l # ls) =
     (case node_at fs l of
        Some Directory \<Rightarrow> mkdir_chain fs ls
      | Some (File d) \<Rightarrow> (Some EOTHER, fs)
      | None \<Rightarrow>
          if l \<in> set (write_denied fs) then (Some EOTHER, fs)
          else mkdir_chain (fs\<lparr>nodes := AList.update l Directory (nodes fs)\<rparr>) ls)"

definition MkdirAll :: "filesystem \<Rightarrow> string \<Rightarrow> os_error option \<times> filesystem" where
  "MkdirAll fs path =
     (let l = resolve path in mkdir_chain fs (map (Pair (fst l)) (tl (prefixes (snd l)))))"

text \<open>\<open>os.Remove\<close> removes a file or an empty directory.\<close>

definition Remove :: "filesystem \<Rightarrow> string \<Rightarrow> os_error option \<times> filesystem" where
  "Remove fs path =
     (let l = resolve path
      in if l \<in> set (write_denied fs) then (Some EOTHER, fs)
         else (case node_at fs l of
                 None \<Rightarrow> (Some (absent_error fs l), fs)
               | Some (File d) \<Rightarrow> (None, fs\<lparr>nodes := AList.delete l (nodes fs)\<rparr>)
               | Some Directory \<Rightarrow>
                   if snd l = [] \<or> dir_entries fs l \<noteq> [] then (Some EOTHER, fs)
                   else (None, fs\<lparr>nodes := AList.delete l (nodes fs)\<rparr>)))"

text \<open>
  \<open>os.RemoveAll\<close> removes a location and everything below it, and succeeds when there is
  nothing there. It fails at a file on the way, and refuses the root and the working
  directory themselves.
\<close>

definition below :: "location \<Rightarrow> location \<Rightarrow> bool" where
  "below l q \<longleftrightarrow> fst q = fst l \<and> prefix (snd l) (snd q)"

definition RemoveAll :: "filesystem \<Rightarrow> string \<Rightarrow> os_error option \<times> filesystem" where
  "RemoveAll fs path =
     (let l = resolve path
      in if l \<in> set (write_denied fs) \<or> snd l = [] then (Some EOTHER, fs)
         else if absent_error fs l = EOTHER then (Some EOTHER, fs)
         else (None, fs\<lparr>nodes := filter (\<lambda>(q, n). \<not> below l q) (nodes fs)\<rparr>))"

subsection \<open>Operations\<close>

text \<open>The loop of \<open>Versions\<close> over the directory entries.\<close>

fun entry_versions :: "(string \<times> bool) list \<Rightarrow> int64 list" where
  "entry_versions [] = []"
| "entry_versions ((name, isDir) # entries) =
     (if isDir then entry_versions entries
      else if suffix ''.meta'' name then entry_versions entries
      else (case ParseInt name of
              None \<Rightarrow> entry_versions entries
            | Some v \<Rightarrow> v # entry_versions entries))"

definition fs_Versions ::
  "string \<Rightarrow> filesystem \<Rightarrow> 'a VersionsRequest_scheme \<Rightarrow> error + int64 list" where
  "fs_Versions rootDir fs req =
     (if \<not> Validate req then Inl ValidationError
      else (case ReadDir fs
                   (buildDir rootDir (AppName req) (UserID req) (SessionID req) (FileName req)) of
              Inl e \<Rightarrow> if e = ENOENT then Inl NotFoundError else Inl StorageIOError
            | Inr entries \<Rightarrow>
                (let versions = entry_versions entries
                 in if versions = [] then Inl NotFoundError
                    else Inr (sort_key sint versions))))"

text \<open>The block of \<open>Save\<close> that picks the version to write.\<close>

definition fs_nextVersion :: "string \<Rightarrow> filesystem \<Rightarrow> SaveRequest \<Rightarrow> int64" where
  "fs_nextVersion rootDir fs req =
     (if 0 < sint (Version req) then Version req
      else (case fs_Versions rootDir fs (versionsRequest req) of
              Inr (v # rest) \<Rightarrow> slices_Max v rest + 1
            | _ \<Rightarrow> 1))"

text \<open>The bytes and the content type \<open>Save\<close> writes for a part.\<close>

definition part_payload :: "Part \<Rightarrow> string \<times> string" where
  "part_payload p =
     (case InlineData p of
        Some bl \<Rightarrow> (Data bl, MIMEType bl)
      | None \<Rightarrow> (Text p, ''text/plain''))"

definition fs_Save ::
  "string \<Rightarrow> filesystem \<Rightarrow> SaveRequest \<Rightarrow> (error + int64) \<times> filesystem" where
  "fs_Save rootDir fs req =
     (if \<not> ValidateSave req then (Inl ValidationError, fs)
      else
        (let nextVersion = fs_nextVersion rootDir fs req;
             path = buildPath rootDir (AppName req) (UserID req) (SessionID req) (FileName req)
                      nextVersion
         in (case MkdirAll fs (Dir path) of
               (Some e, fs1) \<Rightarrow> (Inl StorageIOError, fs1)
             | (None, fs1) \<Rightarrow>
                 (let (d, contentType) = part_payload (Part req)
                  in (case WriteFile fs1 path d of
                        (Some e, fs2) \<Rightarrow> (Inl StorageIOError, fs2)
                      | (None, fs2) \<Rightarrow>
                          (case WriteFile fs2 (path @ ''.meta'') contentType of
                             (Some e, fs3) \<Rightarrow> (Inl StorageIOError, snd (Remove fs3 path))
                           | (None, fs3) \<Rightarrow> (Inr nextVersion, fs3)))))))"

fun fs_save_all ::
  "string \<Rightarrow> filesystem \<Rightarrow> SaveRequest list \<Rightarrow> (error + int64 list) \<times> filesystem" where
  "fs_save_all rootDir fs [] = (Inr [], fs)"
| "fs_save_all rootDir fs (req # reqs) =
     (case fs_Save rootDir fs req of
        (Inl e, fs') \<Rightarrow> (Inl e, fs')
      | (Inr v, fs') \<Rightarrow>
          (case fs_save_all rootDir fs' reqs of
             (Inl e, fs'') \<Rightarrow> (Inl e, fs'')
           | (Inr vs, fs'') \<Rightarrow> (Inr (v # vs), fs'')))"

text \<open>The block of \<open>Load\<close> that resolves version 0 to the latest version.\<close>

definition fs_loadVersion :: "string \<Rightarrow> filesystem \<Rightarrow> LoadRequest \<Rightarrow> error + int64" where
  "fs_loadVersion rootDir fs req =
     (if Version req = 0
      then (case fs_Versions rootDir fs (versionsRequest req) of
              Inl e \<Rightarrow> Inl e
            | Inr [] \<Rightarrow> Inl Panic
            | Inr (v # rest) \<Rightarrow> Inr (slices_Max v rest))
      else Inr (Version req))"

definition fs_Load :: "string \<Rightarrow> filesystem \<Rightarrow> LoadRequest \<Rightarrow> error + Part" where
  "fs_Load rootDir fs req =
     (if \<not> Validate req then Inl ValidationError
      else (case fs_loadVersion rootDir fs req of
              Inl e \<Rightarrow> Inl e
            | Inr version \<Rightarrow>
                (let path = buildPath rootDir (AppName req) (UserID req) (SessionID req)
                              (FileName req) version
                 in (case ReadFile fs path of
                       Inl e \<Rightarrow> if e = ENOENT then Inl NotFoundError else Inl StorageIOError
                     | Inr d \<Rightarrow>
                         (let contentType =
                                (case ReadFile fs (path @ ''.meta'') of
                                   Inr metaData \<Rightarrow> metaData
                                 | Inl e \<Rightarrow> ''text/plain'')
                          in Inr (NewPartFromBytes d contentType))))))"

definition fs_Delete ::
  "string \<Rightarrow> filesystem \<Rightarrow> DeleteRequest \<Rightarrow> error option \<times> filesystem" where
  "fs_Delete rootDir fs req =
     (if \<not> Validate req then (Some ValidationError, fs)
      else if Version req \<noteq> 0
      then (let path = buildPath rootDir (AppName req) (UserID req) (SessionID req)
                         (FileName req) (Version req);
                (err, fs1) = Remove fs path;
                fs2 = snd (Remove fs1 (path @ ''.meta''))
            in if err \<noteq> None \<and> err \<noteq> Some ENOENT then (Some StorageIOError, fs2)
               else (None, fs2))
      else (case RemoveAll fs
                   (buildDir rootDir (AppName req) (UserID req) (SessionID req) (FileName req)) of
              (Some e, fs1) \<Rightarrow> (Some StorageIOError, fs1)
            | (None, fs1) \<Rightarrow> (None, fs1)))"

section \<open>Example stores and requests\<close>

definition empty_bucket :: bucket where
  "empty_bucket =
     \<lparr>objects = [], list_fails = [], write_fails = [], read_fails = [], delete_fails = []\<rparr>"

definition empty_fs :: filesystem where
  "empty_fs = \<lparr>nodes = [], read_denied = [], write_denied = []\<rparr>"

text \<open>A request to save \<open>notes.txt\<close> of session \<open>s1\<close> as plain text, with a version field.\<close>

definition notes_request :: "string \<Rightarrow> int64 \<Rightarrow> SaveRequest" where
  "notes_request txt v =
     \<lparr>AppName = ''app'', UserID = ''u1'', SessionID = ''s1'', FileName = ''notes.txt'',
      Version = v, Part = \<lparr>InlineData = None, Text = txt\<rparr>\<rparr>"

definition notes_at :: "int64 \<Rightarrow> LoadRequest" where
  "notes_at v =
     \<lparr>AppName = ''app'', UserID = ''u1'', SessionID = ''s1'', FileName = ''notes.txt'',
      Version = v\<rparr>"

text \<open>The file system after one save of \<open>hello\<close> under the root directory \<open>root\<close>.\<close>

definition one_note_fs :: filesystem where
  "one_note_fs = snd (fs_Save ''root'' empty_fs (notes_request ''hello'' 0))"

text \<open>The same, with the artifact's directory unreadable, and with the sidecar unreadable.\<close>

definition unlistable_fs :: filesystem where
  "unlistable_fs =
     one_note_fs\<lparr>read_denied := [(False, [''root'', ''app'', ''u1'', ''s1'', ''notes.txt''])]\<rparr>"

definition unreadable_meta_fs :: filesystem where
  "unreadable_meta_fs =
     one_note_fs\<lparr>read_denied :=
        [(False, [''root'', ''app'', ''u1'', ''s1'', ''notes.txt'', ''1.meta''])]\<rparr>"

text \<open>The same, with the sidecar of version 1 removed.\<close>

definition no_meta_fs :: filesystem where
  "no_meta_fs = snd (Remove one_note_fs ''root/app/u1/s1/notes.txt/1.meta'')"

text \<open>A bucket whose listing of the artifact's keys fails.\<close>

definition unlistable_bucket :: bucket where
  "unlistable_bucket = empty_bucket\<lparr>list_fails := [''app/u1/s1/notes.txt/'']\<rparr>"

text \<open>A file system in which the sidecar path of version 1 is taken by a directory.\<close>

definition blocked_meta_fs :: filesystem where
  "blocked_meta_fs = snd (MkdirAll empty_fs ''root/app/u1/s1/notes.txt/1.meta'')"

text \<open>A request to save a user-scoped image as inline data.\<close>

definition avatar_request :: SaveRequest where
  "avatar_request =
     \<lparr>AppName = ''app'', UserID = ''u1'', SessionID = ''s1'', FileName = ''user:avatar.png'',
      Version = 0,
      Part = \<lparr>InlineData = Some \<lparr>Data = ''PNG-bytes'', MIMEType = ''image/png''\<rparr>, Text = []\<rparr>\<rparr>"

text \<open>Three parts to save one after the other.\<close>

definition three_parts :: "Part list" where
  "three_parts =
     [\<lparr>InlineData = None, Text = ''hello''\<rparr>,
      \<lparr>InlineData = None, Text = ''world''\<rparr>,
      \<lparr>InlineData = Some \<lparr>Data = ''PNG-bytes'', MIMEType = ''image/png''\<rparr>, Text = []\<rparr>]"

section \<open>Notions used by the properties\<close>

text \<open>A proper path element: not empty, not \<open>.\<close> or \<open>..\<close>, and free of the separator.\<close>

definition normal_seg :: "string \<Rightarrow> bool" where
  "normal_seg s \<longleftrightarrow> s \<noteq> [] \<and> s \<noteq> ''.'' \<and> s \<noteq> ''..'' \<and> CHR ''/'' \<notin> set s"

text \<open>
  The shape of a cleaned element list: no empty element, no \<open>.\<close>, \<open>..\<close> only in front
  and only when the path is not rooted.
\<close>

definition clean_list :: "bool \<Rightarrow> string list \<Rightarrow> bool" where
  "clean_list rooted xs \<longleftrightarrow>
     list_all (\<lambda>x. x \<noteq> [] \<and> x \<noteq> ''.'' \<and> CHR ''/'' \<notin> set x) xs \<and>
     ''..'' \<notin> set (dropWhile (\<lambda>x. x = ''..'') xs) \<and>
     (if rooted then ''..'' \<notin> set xs else True)"

text \<open>The path \<open>Save\<close> writes the payload of a request to.\<close>

definition fs_savePath :: "string \<Rightarrow> filesystem \<Rightarrow> SaveRequest \<Rightarrow> string" where
  "fs_savePath rootDir fs req =
     buildPath rootDir (AppName req) (UserID req) (SessionID req) (FileName req)
       (fs_nextVersion rootDir fs req)"

text \<open>The request that loads, or deletes, version \<open>v\<close> of the artifact a request names.\<close>

definition at_version :: "'a VersionsRequest_scheme \<Rightarrow> int64 \<Rightarrow> LoadRequest" where
  "at_version req v =
     \<lparr>AppName = AppName req, UserID = UserID req, SessionID = SessionID req,
      FileName = FileName req, Version = v\<rparr>"

text \<open>Nothing is at a path, and no file is on the way to it.\<close>

definition missing :: "filesystem \<Rightarrow> string \<Rightarrow> bool" where
  "missing fs path \<longleftrightarrow>
     node_at fs (resolve path) = None \<and> absent_error fs (resolve path) = ENOENT"

text \<open>The location below a directory that a name leads to.\<close>

definition child :: "location \<Rightarrow> string \<Rightarrow> location" where
  "child l name = (fst l, snd l @ [name])"

text \<open>The versions an enumeration of a directory, or of the keys under a prefix, finds.\<close>

definition stored_versions :: "filesystem \<Rightarrow> location \<Rightarrow> int64 set" where
  "stored_versions fs l =
     {v. \<exists>name d. node_at fs (child l name) = Some (File d) \<and> \<not> suffix ''.meta'' name \<and>
           ParseInt name = Some v}"

definition listed_versions :: "bucket \<Rightarrow> string \<Rightarrow> int64 set" where
  "listed_versions b pfx =
     {v. \<exists>k. map_of (objects b) k \<noteq> None \<and> prefix pfx k \<and>
           ParseInt (last (split_sep k)) = Some v}"

text \<open>A part \<open>Validate\<close> accepts, and the request to save it without an explicit version.\<close>

definition valid_part :: "Part \<Rightarrow> bool" where
  "valid_part p \<longleftrightarrow> InlineData p \<noteq> None \<or> Text p \<noteq> []"

definition save_request :: "'a VersionsRequest_scheme \<Rightarrow> Part \<Rightarrow> SaveRequest" where
  "save_request req p =
     \<lparr>AppName = AppName req, UserID = UserID req, SessionID = SessionID req,
      FileName = FileName req, Version = 0, Part = p\<rparr>"

text \<open>
  A fresh identity in a store that accepts the saves. On the file system: the artifact's
  directory lists no version and holds no subdirectory, no file is on the way to it, its
  listing is not refused, and no change is refused. In the bucket: the listing of the
  artifact's keys succeeds and finds no version, and no write is refused.
\<close>

definition fs_fresh :: "string \<Rightarrow> filesystem \<Rightarrow> 'a VersionsRequest_scheme \<Rightarrow> bool" where
  "fs_fresh rootDir fs req \<longleftrightarrow>
     (let D = resolve (buildDir rootDir (AppName req) (UserID req) (SessionID req) (FileName req))
      in entry_versions (dir_entries fs D) = [] \<and>
         list_all (\<lambda>e. \<not> snd e) (dir_entries fs D) \<and>
         list_all (\<lambda>q. \<not> is_file fs (fst D, q)) (prefixes (snd D)) \<and>
         D \<notin> set (read_denied fs) \<and> write_denied fs = [])"

definition s3_fresh :: "bucket \<Rightarrow> 'a VersionsRequest_scheme \<Rightarrow> bool" where
  "s3_fresh b req \<longleftrightarrow> s3_versions b req = Inr [] \<and> write_fails b = []"

text \<open>The state of the artifact's directory after \<open>k\<close> such saves.\<close>

definition fs_numbered ::
  "string \<Rightarrow> filesystem \<Rightarrow> 'a VersionsRequest_scheme \<Rightarrow> nat \<Rightarrow> bool" where
  "fs_numbered rootDir fs req k \<longleftrightarrow>
     (let D = resolve (buildDir rootDir (AppName req) (UserID req) (SessionID req) (FileName req))
      in write_denied fs = [] \<and> D \<notin> set (read_denied fs) \<and>
         (\<forall>q. prefix q (snd D) \<longrightarrow> \<not> is_file fs (fst D, q)) \<and>
         (\<forall>name. node_at fs (child D name) \<noteq> Some Directory) \<and>
         stored_versions fs D = of_nat ` {1..k} \<and>
         (k = 0 \<or> node_at fs D = Some Directory))"

text \<open>
  The versions of an artifact are stored under the names the service writes: a directory
  entry, or the last segment of a key under the artifact's prefix, that parses as a version
  is the decimal rendering of that version.
\<close>

definition canonical_entry :: "string \<times> bool \<Rightarrow> bool" where
  "canonical_entry e \<longleftrightarrow>
     snd e \<or> suffix ''.meta'' (fst e) \<or>
     (case ParseInt (fst e) of None \<Rightarrow> True | Some v \<Rightarrow> fst e = fmt_d (sint v))"

definition fs_canonical :: "string \<Rightarrow> filesystem \<Rightarrow> 'a VersionsRequest_scheme \<Rightarrow> bool" where
  "fs_canonical rootDir fs req \<longleftrightarrow>
     list_all canonical_entry
       (dir_entries fs
          (resolve (buildDir rootDir (AppName req) (UserID req) (SessionID req) (FileName req))))"

definition canonical_key :: "'a VersionsRequest_scheme \<Rightarrow> string \<Rightarrow> bool" where
  "canonical_key req k \<longleftrightarrow>
     (case ParseInt (last (split_sep k)) of
        None \<Rightarrow> True
      | Some v \<Rightarrow> k = buildKey (AppName req) (UserID req) (SessionID req) (FileName req) v)"

definition s3_canonical :: "bucket \<Rightarrow> 'a VersionsRequest_scheme \<Rightarrow> bool" where
  "s3_canonical b req \<longleftrightarrow>
     list_all (canonical_key req)
       (filter (prefix (buildKeyPrefix (AppName req) (UserID req) (SessionID req) (FileName req)))
          (map fst (objects b)))"

text \<open>The bucket after one save of \<open>hello\<close>, and both stores after two more saves.\<close>

definition one_note_bucket :: bucket where
  "one_note_bucket = snd (s3_Save empty_bucket (notes_request ''hello'' 0))"

definition three_notes_fs :: filesystem where
  "three_notes_fs =
     snd (fs_Save ''root''
            (snd (fs_Save ''root'' one_note_fs (notes_request ''world'' 0)))
            (notes_request ''again'' 0))"

definition three_notes_bucket :: bucket where
  "three_notes_bucket =
     snd (s3_Save
            (snd (s3_Save one_note_bucket (notes_request ''world'' 0)))
            (notes_request ''again'' 0))"

section \<open>Properties\<close>

subsection \<open>Decimal rendering, splitting and joining\<close>

lemma digit_val_digit_char: "d < 10 \<Longrightarrow> digit_val (digit_char d) = Some d"
  by (simp add: digit_val_def digit_char_def)

lemma is_digit_digit_char: "d < 10 \<Longrightarrow> is_digit (digit_char d)"
  by (simp add: is_digit_def digit_val_digit_char)

lemma is_digit_not_special:
  assumes "is_digit c"
  shows "c \<noteq> CHR ''/''" and "c \<noteq> CHR ''-''" and "c \<noteq> CHR ''+''" and "c \<noteq> CHR ''.''"
    and "c \<noteq> CHR ''a''"
  using assms by (auto simp: is_digit_def digit_val_def Let_def split: if_splits)

lemma digits10_digits: "\<forall>c \<in> set (digits10 n). is_digit c"
proof (induction n rule: digits10.induct)
  case (1 n)
  show ?case
  proof (cases "n < 10")
    case True
    then show ?thesis by (subst digits10.simps) (simp add: is_digit_digit_char)
  next
    case False
    have "n mod 10 < 10" by simp
    with False 1 show ?thesis
      by (subst digits10.simps) (simp add: is_digit_digit_char del: mod_less_divisor)
  qed
qed

lemma digits10_nonempty: "digits10 n \<noteq> []"
  by (subst digits10.simps) simp

lemma last_digits10: "is_digit (last (digits10 n))"
  using digits10_digits digits10_nonempty last_in_set by blast

lemma hd_digits10: "is_digit (hd (digits10 n))"
  using digits10_digits digits10_nonempty hd_in_set by blast

lemma parse_digits_append:
  "parse_digits acc (xs @ ys) =
     (case parse_digits acc xs of None \<Rightarrow> None | Some m \<Rightarrow> parse_digits m ys)"
  by (induction xs arbitrary: acc) (auto split: option.splits)

lemma parse_digits_digits10: "parse_digits 0 (digits10 n) = Some n"
proof (induction n rule: digits10.induct)
  case (1 n)
  show ?case
  proof (cases "n < 10")
    case True
    then show ?thesis by (subst digits10.simps) (simp add: digit_val_digit_char)
  next
    case False
    with 1 have "parse_digits 0 (digits10 (n div 10)) = Some (n div 10)" by simp
    with False show ?thesis
      by (subst digits10.simps) (simp add: parse_digits_append digit_val_digit_char)
  qed
qed

lemma ParseInt_fmt_d:
  assumes "- (2 ^ 63) \<le> i" "i < 2 ^ 63"
  shows "ParseInt (fmt_d i) = Some (word_of_int i)"
proof (cases "i < 0")
  case True
  then have "ParseInt (fmt_d i) = ParseInt (CHR ''-'' # digits10 (nat (- i)))"
    by (simp add: fmt_d_def)
  also have "\<dots> = Some (word_of_int i)"
    using True assms by (simp add: ParseInt_def digits10_nonempty parse_digits_digits10)
  finally show ?thesis .
next
  case False
  obtain c cs where cs: "digits10 (nat i) = c # cs"
    using digits10_nonempty by (cases "digits10 (nat i)") auto
  have "is_digit c" using hd_digits10[of "nat i"] cs by simp
  then have c: "c \<noteq> CHR ''-''" "c \<noteq> CHR ''+''" by (rule is_digit_not_special)+
  have "parse_digits 0 (c # cs) = Some (nat i)" using parse_digits_digits10[of "nat i"] cs by simp
  then show ?thesis
    using False assms c cs by (simp add: ParseInt_def fmt_d_def del: parse_digits.simps)
qed

lemma ParseInt_fmt_sint: "ParseInt (fmt_d (sint (v::int64))) = Some v"
proof -
  have "- (2 ^ 63) \<le> sint v" "sint v < 2 ^ 63"
    using sint_ge[of v] sint_lt[of v] by simp_all
  then show ?thesis by (simp add: ParseInt_fmt_d)
qed

lemma fmt_sint_inj: "fmt_d (sint (v::int64)) = fmt_d (sint w) \<Longrightarrow> v = w"
  by (metis ParseInt_fmt_sint option.inject)

lemma fmt_d_chars: "c \<in> set (fmt_d i) \<Longrightarrow> is_digit c \<or> c = CHR ''-''"
  using digits10_digits by (auto simp: fmt_d_def split: if_splits)

lemma fmt_d_no_sep: "CHR ''/'' \<notin> set (fmt_d i)"
  using fmt_d_chars is_digit_not_special(1) by fastforce

lemma fmt_d_nonempty: "fmt_d i \<noteq> []"
  by (simp add: fmt_d_def digits10_nonempty)

lemma fmt_d_no_dot: "CHR ''.'' \<notin> set (fmt_d i)"
  using fmt_d_chars is_digit_not_special(4) by fastforce

lemma last_fmt_d: "is_digit (last (fmt_d i))"
  using last_digits10 by (simp add: fmt_d_def digits10_nonempty)

lemma fmt_d_not_meta: "\<not> suffix ''.meta'' (fmt_d i)"
proof
  assume "suffix ''.meta'' (fmt_d i)"
  then obtain xs where "fmt_d i = xs @ ''.meta''" by (auto simp: suffix_def)
  then have "last (fmt_d i) = CHR ''a''" by simp
  with last_fmt_d[of i] is_digit_not_special(5) show False by metis
qed

lemma split_sep_nonempty: "split_sep s \<noteq> []"
  by (induction s) (auto split: list.splits)

lemma split_sep_append: "split_sep (x @ CHR ''/'' # y) = split_sep x @ split_sep y"
  by (induction x) (auto split: list.splits simp: split_sep_nonempty)

lemma split_sep_single: "CHR ''/'' \<notin> set n \<Longrightarrow> split_sep n = [n]"
  by (induction n) (auto split: list.splits)

lemma split_sep_no_sep: "seg \<in> set (split_sep s) \<Longrightarrow> CHR ''/'' \<notin> set seg"
  by (induction s arbitrary: seg) (auto split: list.splits if_splits)

lemma join_split: "join_sep (split_sep s) = s"
proof (induction s)
  case Nil show ?case by simp
next
  case (Cons c s)
  obtain x xs where xs: "split_sep s = x # xs" using split_sep_nonempty by (cases "split_sep s") auto
  with Cons show ?case by (cases xs) auto
qed

lemma join_sep_Cons: "ys \<noteq> [] \<Longrightarrow> join_sep (x # ys) = x @ CHR ''/'' # join_sep ys"
  by (cases ys) auto

lemma join_sep_snoc: "xs \<noteq> [] \<Longrightarrow> join_sep (xs @ [y]) = join_sep xs @ CHR ''/'' # y"
  by (induction xs rule: join_sep.induct) auto

lemma split_join:
  "xs \<noteq> [] \<Longrightarrow> \<forall>x \<in> set xs. CHR ''/'' \<notin> set x \<Longrightarrow> split_sep (join_sep xs) = xs"
proof (induction xs rule: join_sep.induct)
  case 1 then show ?case by simp
next
  case (2 x) then show ?case by (simp add: split_sep_single)
next
  case (3 x y ys)
  then show ?case by (simp add: split_sep_append split_sep_single)
qed

subsection \<open>Cleaning, joining and resolving paths\<close>

lemma clean_step_normal: "normal_seg n \<Longrightarrow> clean_step r out n = out @ [n]"
  by (simp add: clean_step_def normal_seg_def)

lemma clean_segs_snoc: "normal_seg n \<Longrightarrow> clean_segs r (xs @ [n]) = clean_segs r xs @ [n]"
  by (simp add: clean_segs_def clean_step_normal)

lemma clean_segs_snoc_empty: "clean_segs r (xs @ [[]]) = clean_segs r xs"
  by (simp add: clean_segs_def clean_step_def)

lemma clean_list_Nil: "clean_list r []"
  by (simp add: clean_list_def)

lemma clean_list_butlast: "clean_list r xs \<Longrightarrow> clean_list r (butlast xs)"
proof -
  assume a: "clean_list r xs"
  show ?thesis
  proof (cases "xs = []")
    case True then show ?thesis by (simp add: clean_list_Nil)
  next
    case False
    then obtain ys y where xs: "xs = ys @ [y]" by (metis append_butlast_last_id)
    have d: "''..'' \<notin> set (dropWhile (\<lambda>x. x = ''..'') ys)"
    proof (cases "\<forall>x\<in>set ys. x = ''..''")
      case True
      then have "dropWhile (\<lambda>x. x = ''..'') ys = []" by simp
      then show ?thesis by (simp del: dropWhile_eq_Nil_conv)
    next
      case False
      then obtain z where "z \<in> set ys" "z \<noteq> ''..''" by auto
      then have "dropWhile (\<lambda>x. x = ''..'') (ys @ [y]) = dropWhile (\<lambda>x. x = ''..'') ys @ [y]"
        by (simp add: dropWhile_append1)
      with a xs show ?thesis by (simp add: clean_list_def)
    qed
    from a xs d show ?thesis by (auto simp: clean_list_def split: if_splits)
  qed
qed

lemma clean_list_snoc_normal:
  assumes "clean_list r xs" "normal_seg n"
  shows "clean_list r (xs @ [n])"
proof -
  have "''..'' \<notin> set (dropWhile (\<lambda>x. x = ''..'') (xs @ [n]))"
  proof (cases "\<forall>x\<in>set xs. x = ''..''")
    case True
    then have "dropWhile (\<lambda>x. x = ''..'') (xs @ [n]) = dropWhile (\<lambda>x. x = ''..'') [n]"
      by (simp add: dropWhile_append2)
    with assms(2) show ?thesis by (auto simp: normal_seg_def)
  next
    case False
    then obtain z where "z \<in> set xs" "z \<noteq> ''..''" by auto
    then have "dropWhile (\<lambda>x. x = ''..'') (xs @ [n]) = dropWhile (\<lambda>x. x = ''..'') xs @ [n]"
      by (simp add: dropWhile_append1)
    with assms show ?thesis by (auto simp: clean_list_def normal_seg_def)
  qed
  with assms show ?thesis by (auto simp: clean_list_def normal_seg_def split: if_splits)
qed

lemma clean_list_snoc_dotdot:
  assumes "clean_list False xs" "xs = [] \<or> last xs = ''..''"
  shows "clean_list False (xs @ [''..''])"
proof -
  have all: "\<forall>x\<in>set xs. x = ''..''"
  proof (rule ccontr)
    assume "\<not> ?thesis"
    then obtain z where z: "z \<in> set xs" "z \<noteq> ''..''" by auto
    then have ne: "xs \<noteq> []" by auto
    with assms(2) have l: "last xs = ''..''" by simp
    from z have "dropWhile (\<lambda>x. x = ''..'') xs \<noteq> []" by (auto simp: dropWhile_eq_Nil_conv)
    then have "last (takeWhile (\<lambda>x. x = ''..'') xs @ dropWhile (\<lambda>x. x = ''..'') xs) =
        last (dropWhile (\<lambda>x. x = ''..'') xs)"
      by (rule last_appendR)
    then have "last (dropWhile (\<lambda>x. x = ''..'') xs) = last xs"
      by (simp only: takeWhile_dropWhile_id)
    with l \<open>dropWhile (\<lambda>x. x = ''..'') xs \<noteq> []\<close> have "''..'' \<in> set (dropWhile (\<lambda>x. x = ''..'') xs)"
      by (metis last_in_set)
    with assms(1) show False by (simp add: clean_list_def)
  qed
  then have "dropWhile (\<lambda>x. x = ''..'') (xs @ [''..'']) = []"
    by (simp add: dropWhile_eq_Nil_conv)
  with assms(1) show ?thesis by (simp add: clean_list_def)
qed

lemma clean_list_step:
  assumes "clean_list r out" "CHR ''/'' \<notin> set seg"
  shows "clean_list r (clean_step r out seg)"
proof -
  consider (skip) "seg = [] \<or> seg = ''.''" | (up) "seg = ''..''" | (norm) "normal_seg seg"
    using assms(2) by (auto simp: normal_seg_def)
  then show ?thesis
  proof cases
    case skip then show ?thesis using assms by (auto simp: clean_step_def)
  next
    case up
    show ?thesis
    proof (cases "out \<noteq> [] \<and> last out \<noteq> ''..''")
      case True
      then show ?thesis using up assms(1) by (simp add: clean_step_def clean_list_butlast)
    next
      case False
      show ?thesis
      proof (cases r)
        case True then show ?thesis using up False assms(1) by (auto simp: clean_step_def)
      next
        case nr: False
        then have "clean_step r out seg = out @ [''..'']" using up False by (auto simp: clean_step_def)
        moreover have "clean_list False (out @ [''..''])"
          using clean_list_snoc_dotdot[of out] assms(1) False nr by auto
        ultimately show ?thesis using nr by simp
      qed
    qed
  next
    case norm
    then show ?thesis using assms(1) by (simp add: clean_step_normal clean_list_snoc_normal)
  qed
qed

lemma clean_list_foldl:
  "clean_list r acc \<Longrightarrow> \<forall>x\<in>set xs. CHR ''/'' \<notin> set x \<Longrightarrow>
   clean_list r (foldl (clean_step r) acc xs)"
  by (induction xs arbitrary: acc) (auto simp: clean_list_step)

lemma clean_list_clean_segs:
  "\<forall>x\<in>set xs. CHR ''/'' \<notin> set x \<Longrightarrow> clean_list r (clean_segs r xs)"
  unfolding clean_segs_def by (rule clean_list_foldl) (simp_all add: clean_list_Nil)

lemma clean_list_resolve: "clean_list (fst (resolve p)) (snd (resolve p))"
  unfolding resolve_def using clean_list_clean_segs split_sep_no_sep by auto

lemma clean_list_prefix_step:
  assumes "clean_list r (acc @ x # xs)"
  shows "clean_step r acc x = acc @ [x]"
proof -
  from assms have x: "x \<noteq> []" "x \<noteq> ''.''" by (auto simp: clean_list_def)
  show ?thesis
  proof (cases "x = ''..''")
    case False
    with x show ?thesis by (simp add: clean_step_def)
  next
    case True
    with assms have nr: "\<not> r" by (auto simp: clean_list_def split: if_splits)
    have "\<not> (acc \<noteq> [] \<and> last acc \<noteq> ''..'')"
    proof
      assume a: "acc \<noteq> [] \<and> last acc \<noteq> ''..''"
      then have "last acc \<in> set acc" by simp
      with a have "dropWhile (\<lambda>x. x = ''..'') (acc @ x # xs) = dropWhile (\<lambda>x. x = ''..'') acc @ x # xs"
        by (intro dropWhile_append1[of "last acc"]) simp_all
      with True assms show False by (simp add: clean_list_def)
    qed
    with True nr show ?thesis by (auto simp: clean_step_def)
  qed
qed

lemma foldl_clean_id:
  "clean_list r (acc @ xs) \<Longrightarrow> foldl (clean_step r) acc xs = acc @ xs"
proof (induction xs arbitrary: acc)
  case Nil show ?case by simp
next
  case (Cons x xs)
  have "clean_step r acc x = acc @ [x]" using Cons.prems by (rule clean_list_prefix_step)
  moreover have "clean_list r ((acc @ [x]) @ xs)" using Cons.prems by simp
  ultimately show ?case using Cons.IH[of "acc @ [x]"] by simp
qed

lemma clean_segs_id: "clean_list r xs \<Longrightarrow> clean_segs r xs = xs"
  unfolding clean_segs_def using foldl_clean_id[of r "[]" xs] by simp

lemma join_sep_Cons_if: "join_sep (x # ys) = x @ (if ys = [] then [] else CHR ''/'' # join_sep ys)"
  by (cases ys) auto

lemma clean_list_join_empty: "clean_list r xs \<Longrightarrow> join_sep xs = [] \<longleftrightarrow> xs = []"
  by (cases xs) (auto simp: clean_list_def join_sep_Cons_if)

lemma clean_list_no_sep: "clean_list r xs \<Longrightarrow> \<forall>x\<in>set xs. CHR ''/'' \<notin> set x"
  by (auto simp: clean_list_def list_all_iff)

lemma is_rooted_append: "s \<noteq> [] \<Longrightarrow> is_rooted (s @ t) = is_rooted s"
  by (cases s) (auto simp: is_rooted_def)

lemma is_rooted_render:
  assumes "clean_list r xs" "xs \<noteq> [] \<or> r"
  shows "is_rooted (render r xs) = r"
proof (cases r)
  case True then show ?thesis by (simp add: render_def is_rooted_def)
next
  case False
  with assms(2) obtain x ys where xs: "xs = x # ys" by (cases xs) auto
  with assms(1) obtain c cs where x: "x = c # cs" "c \<noteq> CHR ''/''"
    by (cases x) (auto simp: clean_list_def)
  with False xs show ?thesis by (simp add: render_def is_rooted_def join_sep_Cons_if)
qed

lemma clean_segs_split_render:
  assumes "clean_list r xs"
  shows "clean_segs r (split_sep (render r xs)) = xs"
proof (cases "xs = []")
  case True
  then show ?thesis by (simp add: render_def clean_segs_def clean_step_def)
next
  case False
  with assms have sp: "split_sep (join_sep xs) = xs"
    by (simp add: split_join clean_list_no_sep)
  show ?thesis
  proof (cases r)
    case True
    then have "split_sep (render r xs) = [] # xs" using sp by (simp add: render_def)
    then have "clean_segs r (split_sep (render r xs)) = clean_segs r xs"
      by (simp add: clean_segs_def clean_step_def)
    with assms show ?thesis by (simp add: clean_segs_id)
  next
    case False
    with sp assms show ?thesis by (simp add: render_def clean_segs_id)
  qed
qed

lemma resolve_render:
  "clean_list r xs \<Longrightarrow> xs \<noteq> [] \<or> r \<Longrightarrow> resolve (render r xs) = (r, xs)"
  by (simp add: resolve_def is_rooted_render clean_segs_split_render)

lemma render_empty_iff: "clean_list r xs \<Longrightarrow> render r xs = [] \<longleftrightarrow> \<not> r \<and> xs = []"
  by (auto simp: render_def clean_list_join_empty)

lemma Clean_render:
  "Clean p = (if \<not> fst (resolve p) \<and> snd (resolve p) = [] then ''.''
              else render (fst (resolve p)) (snd (resolve p)))"
  using render_empty_iff[OF clean_list_resolve, of p]
  by (auto simp: Clean_def Let_def resolve_def)

lemma resolve_dot: "resolve ''.'' = (False, [])"
  by (simp add: resolve_def is_rooted_def clean_segs_def clean_step_def)

lemma resolve_root: "resolve ''/'' = (True, [])"
  by (simp add: resolve_def is_rooted_def clean_segs_def clean_step_def)

lemma resolve_empty: "resolve [] = (False, [])"
  by (simp add: resolve_def is_rooted_def clean_segs_def clean_step_def)

lemma resolve_Clean: "resolve (Clean p) = resolve p"
proof (cases "\<not> fst (resolve p) \<and> snd (resolve p) = []")
  case True
  then have "Clean p = ''.''" by (simp add: Clean_render)
  with True show ?thesis by (simp add: resolve_dot prod_eq_iff)
next
  case False
  then have "Clean p = render (fst (resolve p)) (snd (resolve p))" by (auto simp: Clean_render)
  moreover have "resolve (render (fst (resolve p)) (snd (resolve p))) = (fst (resolve p), snd (resolve p))"
    using False by (intro resolve_render clean_list_resolve) auto
  ultimately show ?thesis by simp
qed

lemma resolve_snoc:
  assumes "normal_seg n" "s \<noteq> []"
  shows "resolve (s @ CHR ''/'' # n) = (fst (resolve s), snd (resolve s) @ [n])"
proof -
  have "split_sep (s @ CHR ''/'' # n) = split_sep s @ [n]"
    using assms(1) by (simp add: split_sep_append split_sep_single normal_seg_def)
  then show ?thesis
    using assms by (simp add: resolve_def is_rooted_append clean_segs_snoc)
qed

lemma resolve_trailing_sep:
  assumes "s \<noteq> []"
  shows "resolve (s @ ''/'') = resolve s"
proof -
  have "split_sep (s @ CHR ''/'' # []) = split_sep s @ [[]]"
    by (simp only: split_sep_append) simp
  then show ?thesis
    using assms by (simp add: resolve_def is_rooted_append clean_segs_snoc_empty)
qed

lemma dropWhile_empty_snoc:
  assumes "\<exists>e\<in>set es. e \<noteq> []"
  shows "\<exists>e rest. dropWhile (\<lambda>e. e = []) es = e # rest \<and> e \<noteq> [] \<and>
           dropWhile (\<lambda>e. e = []) (es @ [n]) = (e # rest) @ [n]"
proof -
  from assms obtain z where z: "z \<in> set es" "z \<noteq> []" by auto
  then have a: "dropWhile (\<lambda>e. e = []) (es @ [n]) = dropWhile (\<lambda>e. e = []) es @ [n]"
    by (intro dropWhile_append1[of z]) simp_all
  from z have ne: "dropWhile (\<lambda>e. e = []) es \<noteq> []" by (auto simp: dropWhile_eq_Nil_conv)
  then obtain e rest where er: "dropWhile (\<lambda>e. e = []) es = e # rest"
    by (cases "dropWhile (\<lambda>e. e = []) es") auto
  then have "e \<noteq> []" using hd_dropWhile[OF ne] by simp
  with a er show ?thesis by simp
qed

lemma Join_snoc:
  assumes "\<exists>e\<in>set es. e \<noteq> []"
  shows "\<exists>jd. jd \<noteq> [] \<and> Join es = Clean jd \<and> Join (es @ [n]) = Clean (jd @ CHR ''/'' # n)"
proof -
  from dropWhile_empty_snoc[OF assms, of n] obtain e rest where
    er: "dropWhile (\<lambda>e. e = []) es = e # rest" "e \<noteq> []"
        "dropWhile (\<lambda>e. e = []) (es @ [n]) = (e # rest) @ [n]" by blast
  have ne: "join_sep (e # rest) \<noteq> []" using er(2) by (simp add: join_sep_Cons_if)
  have "Join es = Clean (join_sep (e # rest))" using er(1) by (simp add: Join_def)
  moreover have "Join (es @ [n]) = Clean (join_sep ((e # rest) @ [n]))"
    using er(3) by (simp add: Join_def)
  moreover have "join_sep ((e # rest) @ [n]) = join_sep (e # rest) @ CHR ''/'' # n"
    by (rule join_sep_snoc) simp
  ultimately show ?thesis using ne by metis
qed

lemma resolve_Join_snoc:
  assumes "\<exists>e\<in>set es. e \<noteq> []" "normal_seg n"
  shows "resolve (Join (es @ [n])) = (fst (resolve (Join es)), snd (resolve (Join es)) @ [n])"
proof -
  from Join_snoc[OF assms(1), of n] obtain jd where
    jd: "jd \<noteq> []" "Join es = Clean jd" "Join (es @ [n]) = Clean (jd @ CHR ''/'' # n)" by blast
  then show ?thesis by (simp add: resolve_Clean resolve_snoc[OF assms(2)])
qed

lemma Join_snoc_render:
  assumes "\<exists>e\<in>set es. e \<noteq> []" "normal_seg n"
  shows "Join (es @ [n]) = render (fst (resolve (Join es))) (snd (resolve (Join es)) @ [n])"
proof -
  from Join_snoc[OF assms(1), of n] obtain jd where
    jd: "jd \<noteq> []" "Join es = Clean jd" "Join (es @ [n]) = Clean (jd @ CHR ''/'' # n)" by blast
  have "resolve (jd @ CHR ''/'' # n) = (fst (resolve (Join es)), snd (resolve (Join es)) @ [n])"
    using jd by (simp add: resolve_Clean resolve_snoc[OF assms(2)])
  then show ?thesis using jd(3) by (simp add: Clean_render)
qed

lemma render_snoc_append: "render r (segs @ [n]) @ m = render r (segs @ [n @ m])"
  by (cases "segs = []") (simp_all add: render_def join_sep_snoc)

lemma resolve_Join_snoc_append:
  assumes "\<exists>e\<in>set es. e \<noteq> []" "normal_seg n" "normal_seg (n @ m)"
  shows "resolve (Join (es @ [n]) @ m) =
           (fst (resolve (Join es)), snd (resolve (Join es)) @ [n @ m])"
proof -
  have "Join (es @ [n]) @ m = render (fst (resolve (Join es))) (snd (resolve (Join es)) @ [n @ m])"
    by (simp add: Join_snoc_render[OF assms(1,2)] render_snoc_append)
  moreover have "clean_list (fst (resolve (Join es))) (snd (resolve (Join es)) @ [n @ m])"
    by (intro clean_list_snoc_normal clean_list_resolve assms(3))
  ultimately show ?thesis by (simp add: resolve_render)
qed

lemma upto_last_sep:
  assumes "CHR ''/'' \<notin> set n"
  shows "rev (dropWhile (\<lambda>c. c \<noteq> CHR ''/'') (rev (x @ CHR ''/'' # n))) = x @ ''/''"
    and "rev (dropWhile (\<lambda>c. c \<noteq> CHR ''/'') (rev n)) = []"
proof -
  have "dropWhile (\<lambda>c. c \<noteq> CHR ''/'') (rev n @ CHR ''/'' # rev x) =
        dropWhile (\<lambda>c. c \<noteq> CHR ''/'') (CHR ''/'' # rev x)"
    using assms by (intro dropWhile_append2) auto
  then show "rev (dropWhile (\<lambda>c. c \<noteq> CHR ''/'') (rev (x @ CHR ''/'' # n))) = x @ ''/''"
    by simp
  have "dropWhile (\<lambda>c. c \<noteq> CHR ''/'') (rev n) = []"
    using assms by (auto simp: dropWhile_eq_Nil_conv)
  then show "rev (dropWhile (\<lambda>c. c \<noteq> CHR ''/'') (rev n)) = []" by (simp del: dropWhile_eq_Nil_conv)
qed

lemma resolve_Dir_Join_snoc:
  assumes "\<exists>e\<in>set es. e \<noteq> []" "normal_seg n"
  shows "resolve (Dir (Join (es @ [n]))) = resolve (Join es)"
proof -
  define r where "r = fst (resolve (Join es))"
  define segs where "segs = snd (resolve (Join es))"
  have cl: "clean_list r segs" unfolding r_def segs_def by (rule clean_list_resolve)
  have J: "Join (es @ [n]) = render r (segs @ [n])"
    unfolding r_def segs_def by (rule Join_snoc_render[OF assms])
  have n: "CHR ''/'' \<notin> set n" using assms(2) by (simp add: normal_seg_def)
  have "resolve (Dir (Join (es @ [n]))) = (r, segs)"
  proof (cases "segs = []")
    case True
    show ?thesis
    proof (cases r)
      case True
      have "render r (segs @ [n]) = [] @ CHR ''/'' # n"
        using True \<open>segs = []\<close> by (simp add: render_def)
      then have "Dir (Join (es @ [n])) = Clean ''/''"
        unfolding Dir_def J using upto_last_sep(1)[OF n, of "[]"] by simp
      then show ?thesis using True \<open>segs = []\<close>
        by (simp add: resolve_Clean resolve_root)
    next
      case False
      have rn: "render r (segs @ [n]) = n"
        using False \<open>segs = []\<close> by (simp add: render_def)
      have "Dir (Join (es @ [n])) = Clean []"
        by (simp only: Dir_def J rn upto_last_sep(2)[OF n])
      then show ?thesis using False \<open>segs = []\<close>
        by (simp add: resolve_Clean resolve_empty)
    qed
  next
    case False
    have "render r (segs @ [n]) = render r segs @ CHR ''/'' # n"
      using False by (simp add: render_def join_sep_snoc)
    then have "Dir (Join (es @ [n])) = Clean (render r segs @ ''/'')"
      unfolding Dir_def J using upto_last_sep(1)[OF n, of "render r segs"] by simp
    moreover have "render r segs \<noteq> []" using False cl by (simp add: render_empty_iff)
    ultimately have "resolve (Dir (Join (es @ [n]))) = resolve (render r segs)"
      by (simp add: resolve_Clean resolve_trailing_sep)
    then show ?thesis using resolve_render[OF cl] False by simp
  qed
  then show ?thesis by (simp add: r_def segs_def)
qed

subsection \<open>Explicit versions on save\<close>

text \<open>
  The file-system \<open>Save\<close> writes the version the request names whenever that version is
  positive: a save that succeeds answers with exactly that version.
\<close>

lemma fs_nextVersion_explicit:
  "0 < sint (Version req) \<Longrightarrow> fs_nextVersion rootDir fs req = Version req"
  by (simp add: fs_nextVersion_def)

lemma fs_Save_response:
  "fs_Save rootDir fs req = (Inr v, fs') \<Longrightarrow> v = fs_nextVersion rootDir fs req"
  by (auto simp: fs_Save_def Let_def split: if_splits prod.splits option.splits)

text \<open>
  C1. A save that names an explicit version \<open>V > 0\<close> is to be stored as version \<open>V\<close> on
  either backend. The object-store \<open>Save\<close> never reads the version field: on an empty
  bucket a request for version 5 is stored and answered as version 1.
\<close>

theorem C1_s3_Save_ignores_explicit_version:
  "fst (s3_Save empty_bucket (notes_request ''hello'' 5)) = Inr 1"
  by code_simp

subsection \<open>The order of the listed versions\<close>

text \<open>
  C2. \<open>Versions\<close> is to answer with a strictly ascending sequence on either backend. The
  object-store \<open>Versions\<close> answers in the order of the keys: after ten saves to a fresh
  artifact, which are assigned the versions 1 to 10, it lists version 10 before version 2.
\<close>

theorem C2_s3_Versions_in_key_order:
  "(case s3_save_all empty_bucket (replicate 10 (notes_request ''hello'' 0)) of
      (r, b) \<Rightarrow>
        r = Inr [1, 2, 3, 4, 5, 6, 7, 8, 9, 10] \<and>
        s3_Versions b (notes_at 0) = Inr [1, 10, 2, 3, 4, 5, 6, 7, 8, 9])"
  by code_simp

subsection \<open>Failing enumerations and missing sidecars\<close>

lemma versionsRequest_update_Version [simp]:
  "versionsRequest (req\<lparr>Version := v\<rparr>) = versionsRequest req"
  by (simp add: versionsRequest_def)

lemma ValidateSave_update_Version [simp]:
  "ValidateSave (req\<lparr>Version := v\<rparr>) = ValidateSave req"
  by (simp add: ValidateSave_def Validate_def)

lemma Part_update_Version [simp]: "Part (req\<lparr>Version := v\<rparr>) = Part req"
  by (cases req) simp

lemma fs_Save_cong_version:
  assumes "fs_nextVersion rootDir fs req = fs_nextVersion rootDir fs (req\<lparr>Version := v\<rparr>)"
  shows "fs_Save rootDir fs req = fs_Save rootDir fs (req\<lparr>Version := v\<rparr>)"
  using assms by (simp add: fs_Save_def Let_def cong: prod.case_cong option.case_cong)

text \<open>
  C10. When \<open>Save\<close> is called without an explicit version and the enumeration of the
  existing versions fails, for whatever reason, the file-system backend goes on exactly as
  if version 1 had been requested, so an existing version 1 is overwritten; the object-store
  backend aborts with the enumeration error and leaves the bucket as it was.
\<close>

theorem C10_save_when_enumeration_fails:
  assumes "ValidateSave req" and "\<not> 0 < sint (Version req)"
  shows "(\<forall>e. fs_Versions rootDir fs (versionsRequest req) = Inl e \<longrightarrow>
            fs_Save rootDir fs req = fs_Save rootDir fs (req\<lparr>Version := 1\<rparr>)) \<and>
         (\<forall>e. s3_versions b (versionsRequest req) = Inl e \<longrightarrow> s3_Save b req = (Inl e, b))"
proof (intro conjI allI impI)
  fix e assume "fs_Versions rootDir fs (versionsRequest req) = Inl e"
  then have "fs_nextVersion rootDir fs req = fs_nextVersion rootDir fs (req\<lparr>Version := 1\<rparr>)"
    using assms(2) by (simp add: fs_nextVersion_def)
  then show "fs_Save rootDir fs req = fs_Save rootDir fs (req\<lparr>Version := 1\<rparr>)"
    by (rule fs_Save_cong_version)
next
  fix e assume "s3_versions b (versionsRequest req) = Inl e"
  then show "s3_Save b req = (Inl e, b)"
    using assms(1) by (simp add: s3_Save_def)
qed

theorem C10_save_when_enumeration_fails_witness:
  "ValidateSave (notes_request ''world'' 0) \<and>
   \<not> 0 < sint (Version (notes_request ''world'' 0)) \<and>
   fs_Load ''root'' unlistable_fs (notes_at 1) = Inr (NewPartFromBytes ''hello'' ''text/plain'') \<and>
   fs_Versions ''root'' unlistable_fs (versionsRequest (notes_request ''world'' 0))
     = Inl StorageIOError \<and>
   fs_Save ''root'' unlistable_fs (notes_request ''world'' 0)
     = fs_Save ''root'' unlistable_fs ((notes_request ''world'' 0)\<lparr>Version := 1\<rparr>) \<and>
   fst (fs_Save ''root'' unlistable_fs (notes_request ''world'' 0)) = Inr 1 \<and>
   fs_Load ''root'' (snd (fs_Save ''root'' unlistable_fs (notes_request ''world'' 0))) (notes_at 1)
     = Inr (NewPartFromBytes ''world'' ''text/plain'') \<and>
   s3_versions unlistable_bucket (versionsRequest (notes_request ''world'' 0))
     = Inl StorageIOError \<and>
   s3_Save unlistable_bucket (notes_request ''world'' 0) = (Inl StorageIOError, unlistable_bucket)"
proof -
  have v: "ValidateSave (notes_request ''world'' 0)" by code_simp
  have n: "\<not> 0 < sint (Version (notes_request ''world'' 0))" by code_simp
  have f: "fs_Versions ''root'' unlistable_fs (versionsRequest (notes_request ''world'' 0))
             = Inl StorageIOError" by code_simp
  have s: "s3_versions unlistable_bucket (versionsRequest (notes_request ''world'' 0))
             = Inl StorageIOError" by code_simp
  have l0: "fs_Load ''root'' unlistable_fs (notes_at 1)
             = Inr (NewPartFromBytes ''hello'' ''text/plain'')" by code_simp
  have r: "fst (fs_Save ''root'' unlistable_fs (notes_request ''world'' 0)) = Inr 1" by code_simp
  have l1: "fs_Load ''root'' (snd (fs_Save ''root'' unlistable_fs (notes_request ''world'' 0)))
              (notes_at 1) = Inr (NewPartFromBytes ''world'' ''text/plain'')" by code_simp
  from C10_save_when_enumeration_fails[OF v n, of "''root''" unlistable_fs unlistable_bucket] f s
  have "fs_Save ''root'' unlistable_fs (notes_request ''world'' 0)
          = fs_Save ''root'' unlistable_fs ((notes_request ''world'' 0)\<lparr>Version := 1\<rparr>)"
    and "s3_Save unlistable_bucket (notes_request ''world'' 0)
          = (Inl StorageIOError, unlistable_bucket)"
    by blast+
  with v n f s l0 r l1 show ?thesis by blast
qed

text \<open>
  C9. On the file-system backend, a load of an existing payload whose sidecar cannot be
  read, because it is missing or because the read fails, succeeds with content type
  \<open>text/plain\<close>. The version is the one the load resolves: the requested one, or the
  latest when the request gives 0.
\<close>

theorem C9_fs_Load_defaults_content_type:
  assumes "Validate req"
    and "fs_loadVersion rootDir fs req = Inr v"
    and "ReadFile fs (buildPath rootDir (AppName req) (UserID req) (SessionID req)
           (FileName req) v) = Inr d"
    and "ReadFile fs (buildPath rootDir (AppName req) (UserID req) (SessionID req)
           (FileName req) v @ ''.meta'') = Inl e"
  shows "fs_Load rootDir fs req = Inr (NewPartFromBytes d ''text/plain'')"
  using assms by (simp add: fs_Load_def)

theorem C9_fs_Load_defaults_content_type_witness:
  "Validate (notes_at 0) \<and>
   fs_loadVersion ''root'' no_meta_fs (notes_at 0) = Inr 1 \<and>
   ReadFile no_meta_fs (buildPath ''root'' ''app'' ''u1'' ''s1'' ''notes.txt'' 1) = Inr ''hello'' \<and>
   ReadFile no_meta_fs (buildPath ''root'' ''app'' ''u1'' ''s1'' ''notes.txt'' 1 @ ''.meta'')
     = Inl ENOENT \<and>
   fs_Load ''root'' no_meta_fs (notes_at 0) = Inr (NewPartFromBytes ''hello'' ''text/plain'') \<and>
   Validate (notes_at 1) \<and>
   fs_loadVersion ''root'' unreadable_meta_fs (notes_at 1) = Inr 1 \<and>
   ReadFile unreadable_meta_fs (buildPath ''root'' ''app'' ''u1'' ''s1'' ''notes.txt'' 1)
     = Inr ''hello'' \<and>
   ReadFile unreadable_meta_fs
     (buildPath ''root'' ''app'' ''u1'' ''s1'' ''notes.txt'' 1 @ ''.meta'') = Inl EOTHER \<and>
   fs_Load ''root'' unreadable_meta_fs (notes_at 1)
     = Inr (NewPartFromBytes ''hello'' ''text/plain'')"
proof -
  have v0: "Validate (notes_at 0)" and v1: "Validate (notes_at 1)" by code_simp+
  have a: "fs_loadVersion ''root'' no_meta_fs (notes_at 0) = Inr 1" by code_simp
  have b: "ReadFile no_meta_fs (buildPath ''root'' ''app'' ''u1'' ''s1'' ''notes.txt'' 1)
             = Inr ''hello''" by code_simp
  have c: "ReadFile no_meta_fs (buildPath ''root'' ''app'' ''u1'' ''s1'' ''notes.txt'' 1 @ ''.meta'')
             = Inl ENOENT" by code_simp
  have a': "fs_loadVersion ''root'' unreadable_meta_fs (notes_at 1) = Inr 1" by code_simp
  have b': "ReadFile unreadable_meta_fs (buildPath ''root'' ''app'' ''u1'' ''s1'' ''notes.txt'' 1)
             = Inr ''hello''" by code_simp
  have c': "ReadFile unreadable_meta_fs
              (buildPath ''root'' ''app'' ''u1'' ''s1'' ''notes.txt'' 1 @ ''.meta'') = Inl EOTHER"
    by code_simp
  have i: "AppName (notes_at 0) = ''app''" "UserID (notes_at 0) = ''u1''"
      "SessionID (notes_at 0) = ''s1''" "FileName (notes_at 0) = ''notes.txt''"
      "AppName (notes_at 1) = ''app''" "UserID (notes_at 1) = ''u1''"
      "SessionID (notes_at 1) = ''s1''" "FileName (notes_at 1) = ''notes.txt''"
    by (simp_all add: notes_at_def)
  have "fs_Load ''root'' no_meta_fs (notes_at 0) = Inr (NewPartFromBytes ''hello'' ''text/plain'')"
    by (rule C9_fs_Load_defaults_content_type[OF v0 a]) (simp_all only: i b c)
  moreover have "fs_Load ''root'' unreadable_meta_fs (notes_at 1)
      = Inr (NewPartFromBytes ''hello'' ''text/plain'')"
    by (rule C9_fs_Load_defaults_content_type[OF v1 a']) (simp_all only: i b' c')
  ultimately show ?thesis using v0 v1 a b c a' b' c' by blast
qed

subsection \<open>Locations\<close>

lemma join_sep_inj:
  assumes "xs \<noteq> []" "ys \<noteq> []" "\<forall>x\<in>set xs. CHR ''/'' \<notin> set x" "\<forall>y\<in>set ys. CHR ''/'' \<notin> set y"
    and "join_sep xs = join_sep ys"
  shows "xs = ys"
  using assms by (metis split_join)

lemma buildKey_join:
  "buildKey a u s f v =
     join_sep [a, u, if fileHasUserNamespace f then ''user'' else s, f, fmt_d (sint v)]"
  by (simp add: buildKey_def)

lemma normal_seg_fmt_d: "normal_seg (fmt_d i)"
proof -
  have "fmt_d i \<noteq> ''.''" "fmt_d i \<noteq> ''..''"
    using fmt_d_no_dot[of i] by (metis list.set_intros(1))+
  then show ?thesis by (simp add: normal_seg_def fmt_d_nonempty fmt_d_no_sep)
qed

lemma normal_seg_user: "normal_seg ''user''"
  by (simp add: normal_seg_def)

lemma resolve_normal: "normal_seg a \<Longrightarrow> resolve a = (False, [a])"
proof -
  assume a: "normal_seg a"
  then obtain c cs where "a = c # cs" "c \<noteq> CHR ''/''" by (cases a) (auto simp: normal_seg_def)
  then have "\<not> is_rooted a" by (simp add: is_rooted_def)
  moreover have "split_sep a = [a]" using a by (simp add: split_sep_single normal_seg_def)
  ultimately show ?thesis using a by (simp add: resolve_def clean_segs_def clean_step_normal)
qed

lemma resolve_Join_root:
  assumes "normal_seg a"
  shows "resolve (Join [rootDir, a]) = (fst (resolve rootDir), snd (resolve rootDir) @ [a])"
proof (cases "rootDir = []")
  case True
  have "a \<noteq> []" using assms by (simp add: normal_seg_def)
  then obtain c cs where "a = c # cs" by (cases a) auto
  then have "Join [rootDir, a] = Clean a" using True by (simp add: Join_def)
  then show ?thesis using True assms by (simp add: resolve_Clean resolve_normal resolve_empty)
next
  case False
  then obtain c cs where "rootDir = c # cs" by (cases rootDir) auto
  then have "Join [rootDir] = Clean rootDir" by (simp add: Join_def)
  moreover have "resolve (Join ([rootDir] @ [a])) =
      (fst (resolve (Join [rootDir])), snd (resolve (Join [rootDir])) @ [a])"
    using False assms by (intro resolve_Join_snoc) auto
  ultimately show ?thesis by (simp add: resolve_Clean)
qed

lemma resolve_Join5:
  assumes "normal_seg a" "normal_seg u" "normal_seg s" "normal_seg f"
  shows "resolve (Join [rootDir, a, u, s, f]) =
           (fst (resolve rootDir), snd (resolve rootDir) @ [a, u, s, f])"
proof -
  have a: "a \<noteq> []" using assms(1) by (simp add: normal_seg_def)
  have "resolve (Join ([rootDir, a] @ [u])) =
          (fst (resolve (Join [rootDir, a])), snd (resolve (Join [rootDir, a])) @ [u])"
    using a assms(2) by (intro resolve_Join_snoc) auto
  moreover have "resolve (Join ([rootDir, a, u] @ [s])) =
          (fst (resolve (Join [rootDir, a, u])), snd (resolve (Join [rootDir, a, u])) @ [s])"
    using a assms(3) by (intro resolve_Join_snoc) auto
  moreover have "resolve (Join ([rootDir, a, u, s] @ [f])) =
          (fst (resolve (Join [rootDir, a, u, s])), snd (resolve (Join [rootDir, a, u, s])) @ [f])"
    using a assms(4) by (intro resolve_Join_snoc) auto
  ultimately show ?thesis using resolve_Join_root[OF assms(1), of rootDir] by simp
qed

lemma buildDir_Join:
  "buildDir rootDir a u s f =
     Join [rootDir, a, u, if fileHasUserNamespace f then ''user'' else s, f]"
  by (simp add: buildDir_def)

lemma buildPath_Join:
  "buildPath rootDir a u s f v =
     Join ([rootDir, a, u, if fileHasUserNamespace f then ''user'' else s, f] @ [fmt_d (sint v)])"
  by (simp add: buildPath_def)

lemma resolve_buildPath:
  assumes "a \<noteq> []"
  shows "resolve (buildPath rootDir a u s f v) =
           (fst (resolve (buildDir rootDir a u s f)),
            snd (resolve (buildDir rootDir a u s f)) @ [fmt_d (sint v)])"
  unfolding buildPath_Join buildDir_Join
  using assms by (intro resolve_Join_snoc normal_seg_fmt_d) auto

lemma resolve_buildPath_normal:
  assumes "normal_seg a" "normal_seg u" "normal_seg s" "normal_seg f"
  shows "resolve (buildPath rootDir a u s f v) =
           (fst (resolve rootDir),
            snd (resolve rootDir)
              @ [a, u, if fileHasUserNamespace f then ''user'' else s, f, fmt_d (sint v)])"
proof -
  have a: "a \<noteq> []" using assms(1) by (simp add: normal_seg_def)
  have "normal_seg (if fileHasUserNamespace f then ''user'' else s)"
    using assms(3) normal_seg_user by simp
  from resolve_Join5[OF assms(1,2) this assms(4), of rootDir]
  show ?thesis by (simp add: resolve_buildPath[OF a] buildDir_Join)
qed

text \<open>
  C7. The claim: for names free of the path separator, two distinct (identity, version) pairs
  never map to the same path or key. It fails where the code is meant to share: a user-scoped
  file name yields the same key and the same path in every session of the user.
\<close>

theorem C7_user_scoped_locations_collide:
  "buildKey ''app'' ''u1'' ''s1'' ''user:avatar.png'' 1
     = buildKey ''app'' ''u1'' ''s2'' ''user:avatar.png'' 1 \<and>
   buildPath ''root'' ''app'' ''u1'' ''s1'' ''user:avatar.png'' 1
     = buildPath ''root'' ''app'' ''u1'' ''s2'' ''user:avatar.png'' 1 \<and>
   (''app'', ''u1'', ''s1'', ''user:avatar.png'', 1 :: int64)
     \<noteq> (''app'', ''u1'', ''s2'', ''user:avatar.png'', 1)"
  by (simp add: buildKey_def buildPath_def fileHasUserNamespace_def)

text \<open>
  C7, amended. For names free of the path separator, two (identity, version) pairs map to
  the same key exactly when they agree on the application, the user, the file name and the
  version, and also on the session unless the file name is user-scoped; a session-scoped and
  a user-scoped name never share a key. The same holds for the paths under one root
  directory when, in addition, no name is empty, \<open>.\<close> or \<open>..\<close>.
\<close>

theorem C7_locations_injective:
  "(list_all (\<lambda>x. CHR ''/'' \<notin> set x) [a, u, s, f, a', u', s', f'] \<longrightarrow>
      (buildKey a u s f v = buildKey a' u' s' f' v' \<longleftrightarrow>
         a = a' \<and> u = u' \<and> f = f' \<and> v = v' \<and> (fileHasUserNamespace f \<or> s = s'))) \<and>
   (list_all normal_seg [a, u, s, f, a', u', s', f'] \<longrightarrow>
      (buildPath rootDir a u s f v = buildPath rootDir a' u' s' f' v' \<longleftrightarrow>
         a = a' \<and> u = u' \<and> f = f' \<and> v = v' \<and> (fileHasUserNamespace f \<or> s = s')))"
proof (intro conjI impI)
  assume safe: "list_all (\<lambda>x. CHR ''/'' \<notin> set x) [a, u, s, f, a', u', s', f']"
  show "buildKey a u s f v = buildKey a' u' s' f' v' \<longleftrightarrow>
          a = a' \<and> u = u' \<and> f = f' \<and> v = v' \<and> (fileHasUserNamespace f \<or> s = s')"
  proof
    assume eq: "buildKey a u s f v = buildKey a' u' s' f' v'"
    have "[a, u, if fileHasUserNamespace f then ''user'' else s, f, fmt_d (sint v)] =
          [a', u', if fileHasUserNamespace f' then ''user'' else s', f', fmt_d (sint v')]"
      using safe eq unfolding buildKey_join
      by (intro join_sep_inj) (auto simp: fmt_d_no_sep)
    then show "a = a' \<and> u = u' \<and> f = f' \<and> v = v' \<and> (fileHasUserNamespace f \<or> s = s')"
      by (auto dest: fmt_sint_inj split: if_splits)
  next
    assume "a = a' \<and> u = u' \<and> f = f' \<and> v = v' \<and> (fileHasUserNamespace f \<or> s = s')"
    then show "buildKey a u s f v = buildKey a' u' s' f' v'"
      by (auto simp: buildKey_def)
  qed
next
  assume safe: "list_all normal_seg [a, u, s, f, a', u', s', f']"
  show "buildPath rootDir a u s f v = buildPath rootDir a' u' s' f' v' \<longleftrightarrow>
          a = a' \<and> u = u' \<and> f = f' \<and> v = v' \<and> (fileHasUserNamespace f \<or> s = s')"
  proof
    assume "buildPath rootDir a u s f v = buildPath rootDir a' u' s' f' v'"
    then have "resolve (buildPath rootDir a u s f v) = resolve (buildPath rootDir a' u' s' f' v')"
      by simp
    then have "[a, u, if fileHasUserNamespace f then ''user'' else s, f, fmt_d (sint v)] =
          [a', u', if fileHasUserNamespace f' then ''user'' else s', f', fmt_d (sint v')]"
      using safe by (auto simp: resolve_buildPath_normal split: if_splits)
    then show "a = a' \<and> u = u' \<and> f = f' \<and> v = v' \<and> (fileHasUserNamespace f \<or> s = s')"
      by (auto dest: fmt_sint_inj split: if_splits)
  next
    assume "a = a' \<and> u = u' \<and> f = f' \<and> v = v' \<and> (fileHasUserNamespace f \<or> s = s')"
    then show "buildPath rootDir a u s f v = buildPath rootDir a' u' s' f' v'"
      by (auto simp: buildPath_def)
  qed
qed

theorem C7_locations_injective_witness:
  "list_all (\<lambda>x. CHR ''/'' \<notin> set x)
     [''app'', ''u1'', ''s1'', ''notes.txt'', ''app'', ''u1'', ''user'', ''user:notes.txt''] \<and>
   list_all normal_seg
     [''app'', ''u1'', ''s1'', ''notes.txt'', ''app'', ''u1'', ''user'', ''user:notes.txt''] \<and>
   buildKey ''app'' ''u1'' ''s1'' ''notes.txt'' 1
     \<noteq> buildKey ''app'' ''u1'' ''user'' ''user:notes.txt'' 1 \<and>
   buildPath ''root'' ''app'' ''u1'' ''s1'' ''notes.txt'' 1
     \<noteq> buildPath ''root'' ''app'' ''u1'' ''user'' ''user:notes.txt'' 1"
proof -
  have h1: "list_all (\<lambda>x. CHR ''/'' \<notin> set x)
     [''app'', ''u1'', ''s1'', ''notes.txt'', ''app'', ''u1'', ''user'', ''user:notes.txt'']"
    by simp
  have h2: "list_all normal_seg
     [''app'', ''u1'', ''s1'', ''notes.txt'', ''app'', ''u1'', ''user'', ''user:notes.txt'']"
    by (simp add: normal_seg_def)
  have ne: "''notes.txt'' \<noteq> ''user:notes.txt''" by simp
  from C7_locations_injective[of "''app''" "''u1''" "''s1''" "''notes.txt''"
      "''app''" "''u1''" "''user''" "''user:notes.txt''" 1 1 "''root''"] h1 h2 ne
  show ?thesis by blast
qed

subsection \<open>The file system after an operation\<close>

lemma node_at_update:
  "node_at (fs\<lparr>nodes := AList.update l n (nodes fs)\<rparr>) q =
     (if q = l \<and> snd l \<noteq> [] then Some n else node_at fs q)"
  by (auto simp: node_at_def update_conv')

lemma node_at_delete:
  "node_at (fs\<lparr>nodes := AList.delete l (nodes fs)\<rparr>) q =
     (if q = l \<and> snd l \<noteq> [] then None else node_at fs q)"
  by (auto simp: node_at_def delete_conv')

lemma node_at_root: "snd l = [] \<Longrightarrow> node_at fs l = Some Directory"
  by (simp add: node_at_def)

lemma node_at_None_nonempty: "node_at fs l = None \<Longrightarrow> snd l \<noteq> []"
  by (auto simp: node_at_def split: if_splits)

lemma node_at_File_nonempty: "node_at fs l = Some (File d) \<Longrightarrow> snd l \<noteq> []"
  by (auto simp: node_at_def split: if_splits)

lemma WriteFile_fail: "WriteFile fs path d = (Some e, fs') \<Longrightarrow> fs' = fs"
  by (auto simp: WriteFile_def Let_def split: if_splits)

lemma WriteFile_ok:
  assumes "WriteFile fs path d = (None, fs')"
  shows "node_at fs' q = (if q = resolve path then Some (File d) else node_at fs q)"
    and "read_denied fs' = read_denied fs" and "write_denied fs' = write_denied fs"
    and "resolve path \<notin> set (write_denied fs)"
    and "node_at fs (parent (resolve path)) = Some Directory"
    and "snd (resolve path) \<noteq> []"
proof -
  from assms have c: "resolve path \<notin> set (write_denied fs)"
      "node_at fs (resolve path) \<noteq> Some Directory"
      "node_at fs (parent (resolve path)) = Some Directory"
      "fs' = fs\<lparr>nodes := AList.update (resolve path) (File d) (nodes fs)\<rparr>"
    by (auto simp: WriteFile_def Let_def split: if_splits)
  from c(2) show ne: "snd (resolve path) \<noteq> []" by (auto simp: node_at_def)
  from c(4) ne show "node_at fs' q = (if q = resolve path then Some (File d) else node_at fs q)"
    by (simp add: node_at_update)
  from c show "read_denied fs' = read_denied fs" "write_denied fs' = write_denied fs"
    "resolve path \<notin> set (write_denied fs)" "node_at fs (parent (resolve path)) = Some Directory"
    by simp_all
qed

lemma WriteFile_succeeds:
  assumes "resolve path \<notin> set (write_denied fs)"
    and "node_at fs (resolve path) \<noteq> Some Directory"
    and "node_at fs (parent (resolve path)) = Some Directory"
  shows "\<exists>fs'. WriteFile fs path d = (None, fs')"
  using assms by (simp add: WriteFile_def Let_def)

lemma Remove_file:
  assumes "node_at fs (resolve path) = Some (File d)" "resolve path \<notin> set (write_denied fs)"
  shows "Remove fs path = (None, fs\<lparr>nodes := AList.delete (resolve path) (nodes fs)\<rparr>)"
  using assms by (simp add: Remove_def Let_def)

lemma Remove_missing:
  assumes "missing fs path" "resolve path \<notin> set (write_denied fs)"
  shows "Remove fs path = (Some ENOENT, fs)"
  using assms by (simp add: Remove_def Let_def missing_def)

lemma Remove_result:
  assumes "Remove fs path = (e, fs')"
  shows "read_denied fs' = read_denied fs" and "write_denied fs' = write_denied fs"
    and "q \<noteq> resolve path \<Longrightarrow> node_at fs' q = node_at fs q"
    and "e = None \<Longrightarrow> node_at fs' (resolve path) = None"
    and "e \<noteq> None \<Longrightarrow> fs' = fs"
proof -
  have *: "fs' = fs \<and> e \<noteq> None \<or>
      fs' = fs\<lparr>nodes := AList.delete (resolve path) (nodes fs)\<rparr> \<and> e = None \<and>
        snd (resolve path) \<noteq> []"
    using assms
    by (auto simp: Remove_def Let_def node_at_def split: if_splits option.splits node.splits)
  from * show "read_denied fs' = read_denied fs" "write_denied fs' = write_denied fs" by auto
  from * show "q \<noteq> resolve path \<Longrightarrow> node_at fs' q = node_at fs q"
    by (auto simp: node_at_delete)
  from * show "e = None \<Longrightarrow> node_at fs' (resolve path) = None"
    by (auto simp: node_at_delete)
  from * show "e \<noteq> None \<Longrightarrow> fs' = fs" by auto
qed

lemma mkdir_chain_result:
  assumes "mkdir_chain fs ls = (e, fs')"
  shows "read_denied fs' = read_denied fs \<and> write_denied fs' = write_denied fs \<and>
         (\<forall>q. node_at fs' q = node_at fs q \<or>
               (q \<in> set ls \<and> node_at fs q = None \<and> node_at fs' q = Some Directory)) \<and>
         (e = None \<longrightarrow> (\<forall>l\<in>set ls. node_at fs' l = Some Directory))"
  using assms
proof (induction ls arbitrary: fs)
  case Nil then show ?case by simp
next
  case (Cons l ls)
  show ?case
  proof (cases "node_at fs l")
    case None
    show ?thesis
    proof (cases "l \<in> set (write_denied fs)")
      case True
      with None Cons.prems show ?thesis by auto
    next
      case False
      define fs1 where "fs1 = fs\<lparr>nodes := AList.update l Directory (nodes fs)\<rparr>"
      have ne: "snd l \<noteq> []" using None by (rule node_at_None_nonempty)
      have n1: "\<And>q. node_at fs1 q = (if q = l then Some Directory else node_at fs q)"
        using ne by (simp add: fs1_def node_at_update)
      have d1: "read_denied fs1 = read_denied fs" "write_denied fs1 = write_denied fs"
        by (simp_all add: fs1_def)
      from None False Cons.prems have "mkdir_chain fs1 ls = (e, fs')" by (simp add: fs1_def)
      from Cons.IH[OF this] have ih:
        "read_denied fs' = read_denied fs1" "write_denied fs' = write_denied fs1"
        "\<And>q. node_at fs' q = node_at fs1 q \<or>
               (q \<in> set ls \<and> node_at fs1 q = None \<and> node_at fs' q = Some Directory)"
        "e = None \<Longrightarrow> \<forall>l\<in>set ls. node_at fs' l = Some Directory"
        by auto
      have l': "node_at fs' l = Some Directory" using ih(3)[of l] n1 by auto
      have "\<And>q. node_at fs' q = node_at fs q \<or>
               (q \<in> set (l # ls) \<and> node_at fs q = None \<and> node_at fs' q = Some Directory)"
        using ih(3) n1 None by (metis list.set_intros(1,2) option.distinct(1))
      with ih(1,2,4) d1 l' show ?thesis by auto
    qed
  next
    case (Some n)
    show ?thesis
    proof (cases n)
      case (File d)
      with Some Cons.prems show ?thesis by auto
    next
      case Directory
      with Some Cons.prems have "mkdir_chain fs ls = (e, fs')" by simp
      from Cons.IH[OF this] have ih:
        "read_denied fs' = read_denied fs" "write_denied fs' = write_denied fs"
        "\<And>q. node_at fs' q = node_at fs q \<or>
               (q \<in> set ls \<and> node_at fs q = None \<and> node_at fs' q = Some Directory)"
        "e = None \<Longrightarrow> \<forall>l\<in>set ls. node_at fs' l = Some Directory"
        by auto
      have "node_at fs' l = Some Directory" using ih(3)[of l] Some Directory by auto
      with ih show ?thesis by auto
    qed
  qed
qed

lemma mkdir_chain_succeeds:
  assumes "\<forall>l\<in>set ls. \<not> is_file fs l" "\<forall>l\<in>set ls. l \<notin> set (write_denied fs)"
  shows "fst (mkdir_chain fs ls) = None"
  using assms
proof (induction ls arbitrary: fs)
  case Nil then show ?case by simp
next
  case (Cons l ls)
  show ?case
  proof (cases "node_at fs l")
    case None
    define fs1 where "fs1 = fs\<lparr>nodes := AList.update l Directory (nodes fs)\<rparr>"
    have "\<forall>q\<in>set ls. \<not> is_file fs1 q"
      using Cons.prems(1) by (auto simp: is_file_def fs1_def node_at_update split: option.splits node.splits)
    moreover have "\<forall>q\<in>set ls. q \<notin> set (write_denied fs1)"
      using Cons.prems(2) by (simp add: fs1_def)
    ultimately have "fst (mkdir_chain fs1 ls) = None" by (rule Cons.IH)
    with None Cons.prems(2) show ?thesis by (simp add: fs1_def)
  next
    case (Some n)
    with Cons.prems(1) have "n = Directory" by (cases n) (auto simp: is_file_def)
    with Some Cons show ?thesis by simp
  qed
qed

lemma self_in_tl_prefixes: "xs \<noteq> [] \<Longrightarrow> xs \<in> set (tl (prefixes xs))"
  by (cases xs) (simp_all add: in_set_prefixes)

lemma MkdirAll_result:
  assumes "MkdirAll fs path = (e, fs')"
  shows "read_denied fs' = read_denied fs" and "write_denied fs' = write_denied fs"
    and "node_at fs q = Some n \<Longrightarrow> node_at fs' q = Some n"
    and "\<not> prefix (snd q) (snd (resolve path)) \<Longrightarrow> node_at fs' q = node_at fs q"
    and "node_at fs' q = Some (File d) \<Longrightarrow> node_at fs q = Some (File d)"
    and "e = None \<Longrightarrow> node_at fs' (resolve path) = Some Directory"
proof -
  let ?ls = "map (Pair (fst (resolve path))) (tl (prefixes (snd (resolve path))))"
  from assms have m: "mkdir_chain fs ?ls = (e, fs')" by (simp add: MkdirAll_def Let_def)
  note r = mkdir_chain_result[OF m]
  from r show "read_denied fs' = read_denied fs" "write_denied fs' = write_denied fs" by auto
  from r show "node_at fs q = Some n \<Longrightarrow> node_at fs' q = Some n" by (metis option.distinct(1))
  from r show "node_at fs' q = Some (File d) \<Longrightarrow> node_at fs q = Some (File d)"
    by (metis node.distinct(1) option.inject)
  have "q \<in> set ?ls \<Longrightarrow> prefix (snd q) (snd (resolve path))"
    by (auto dest!: list.set_sel(2)[rotated] simp: in_set_prefixes)
  with r show "\<not> prefix (snd q) (snd (resolve path)) \<Longrightarrow> node_at fs' q = node_at fs q"
    by metis
  show "e = None \<Longrightarrow> node_at fs' (resolve path) = Some Directory"
  proof (cases "snd (resolve path) = []")
    case True then show ?thesis by (simp add: node_at_root)
  next
    case False
    then have "snd (resolve path) \<in> set (tl (prefixes (snd (resolve path))))"
      by (rule self_in_tl_prefixes)
    then have "resolve path \<in> set ?ls" by (force simp: image_iff)
    with r show "e = None \<Longrightarrow> node_at fs' (resolve path) = Some Directory" by blast
  qed
qed

subsection \<open>A failed sidecar write\<close>

lemma normal_seg_append_meta: "normal_seg n \<Longrightarrow> normal_seg (n @ ''.meta'')"
  by (cases n) (auto simp: normal_seg_def)

lemma resolve_buildPath_meta:
  assumes "a \<noteq> []"
  shows "resolve (buildPath rootDir a u s f v @ ''.meta'') =
           (fst (resolve (buildDir rootDir a u s f)),
            snd (resolve (buildDir rootDir a u s f)) @ [fmt_d (sint v) @ ''.meta''])"
  unfolding buildPath_Join buildDir_Join
  using assms
  by (intro resolve_Join_snoc_append normal_seg_fmt_d normal_seg_append_meta) auto

lemma resolve_Dir_buildPath:
  assumes "a \<noteq> []"
  shows "resolve (Dir (buildPath rootDir a u s f v)) = resolve (buildDir rootDir a u s f)"
  unfolding buildPath_Join buildDir_Join
  using assms by (intro resolve_Dir_Join_snoc normal_seg_fmt_d) auto

lemma resolve_path_neq_meta:
  assumes "a \<noteq> []"
  shows "resolve (buildPath rootDir a u s f v) \<noteq> resolve (buildPath rootDir a u s f v @ ''.meta'')"
  by (simp add: resolve_buildPath[OF assms] resolve_buildPath_meta[OF assms])

lemma ValidateSave_AppName: "ValidateSave req \<Longrightarrow> AppName req \<noteq> []"
  by (simp add: ValidateSave_def Validate_def)

lemma fs_Save_steps:
  assumes "ValidateSave req" and "fs_Save rootDir fs req = (Inr v, fs')"
  shows "\<exists>fs1 fs2.
     v = fs_nextVersion rootDir fs req \<and>
     MkdirAll fs (Dir (fs_savePath rootDir fs req)) = (None, fs1) \<and>
     WriteFile fs1 (fs_savePath rootDir fs req) (fst (part_payload (Part req))) = (None, fs2) \<and>
     WriteFile fs2 (fs_savePath rootDir fs req @ ''.meta'') (snd (part_payload (Part req)))
       = (None, fs')"
proof -
  let ?path = "fs_savePath rootDir fs req"
  obtain d ct where pp: "part_payload (Part req) = (d, ct)" by (cases "part_payload (Part req)")
  obtain e1 fs1 where m: "MkdirAll fs (Dir ?path) = (e1, fs1)"
    by (cases "MkdirAll fs (Dir ?path)")
  obtain e2 fs2 where w1: "WriteFile fs1 ?path d = (e2, fs2)"
    by (cases "WriteFile fs1 ?path d")
  obtain e3 fs3 where w2: "WriteFile fs2 (?path @ ''.meta'') ct = (e3, fs3)"
    by (cases "WriteFile fs2 (?path @ ''.meta'') ct")
  from assms m w1 w2 pp have "e1 = None \<and> e2 = None \<and> e3 = None \<and> fs3 = fs' \<and>
      v = fs_nextVersion rootDir fs req"
    by (auto simp: fs_Save_def fs_savePath_def Let_def split: option.splits)
  with m w1 w2 pp show ?thesis by auto
qed

lemma fs_Save_sidecar_failure:
  assumes "ValidateSave req"
    and "MkdirAll fs (Dir (fs_savePath rootDir fs req)) = (None, fs1)"
    and "WriteFile fs1 (fs_savePath rootDir fs req) (fst (part_payload (Part req))) = (None, fs2)"
    and "WriteFile fs2 (fs_savePath rootDir fs req @ ''.meta'') (snd (part_payload (Part req)))
           = (Some e, fs3)"
  shows "fs_Save rootDir fs req
           = (Inl StorageIOError, snd (Remove fs3 (fs_savePath rootDir fs req)))"
proof -
  obtain d ct where pp: "part_payload (Part req) = (d, ct)" by (cases "part_payload (Part req)")
  with assms show ?thesis
    by (simp add: fs_Save_def fs_savePath_def Let_def)
qed

text \<open>
  C8. On the file-system backend, when the payload has been written and the write of the
  sidecar fails, \<open>Save\<close> removes the payload again and returns the error: afterwards there
  is no payload at the path. And whenever \<open>Save\<close> answers with a version, the payload and
  its sidecar are both in place, holding the bytes and the content type of the request.
\<close>

theorem C8_sidecar_failure_removes_payload:
  assumes "ValidateSave req"
  shows "(\<forall>fs1 fs2 fs3 e.
            MkdirAll fs (Dir (fs_savePath rootDir fs req)) = (None, fs1) \<and>
            WriteFile fs1 (fs_savePath rootDir fs req) (fst (part_payload (Part req)))
              = (None, fs2) \<and>
            WriteFile fs2 (fs_savePath rootDir fs req @ ''.meta'')
              (snd (part_payload (Part req))) = (Some e, fs3) \<longrightarrow>
            fs_Save rootDir fs req
              = (Inl StorageIOError, snd (Remove fs2 (fs_savePath rootDir fs req))) \<and>
            node_at (snd (fs_Save rootDir fs req)) (resolve (fs_savePath rootDir fs req))
              = None) \<and>
         (\<forall>v fs'.
            fs_Save rootDir fs req = (Inr v, fs') \<longrightarrow>
            node_at fs' (resolve (fs_savePath rootDir fs req))
              = Some (File (fst (part_payload (Part req)))) \<and>
            node_at fs' (resolve (fs_savePath rootDir fs req @ ''.meta''))
              = Some (File (snd (part_payload (Part req)))))"
proof (intro conjI allI impI)
  fix fs1 fs2 fs3 e
  let ?path = "fs_savePath rootDir fs req"
  assume a: "MkdirAll fs (Dir ?path) = (None, fs1) \<and>
      WriteFile fs1 ?path (fst (part_payload (Part req))) = (None, fs2) \<and>
      WriteFile fs2 (?path @ ''.meta'') (snd (part_payload (Part req))) = (Some e, fs3)"
  then have fs3: "fs3 = fs2" using WriteFile_fail by blast
  from a fs3 fs_Save_sidecar_failure[OF assms, where fs=fs and rootDir=rootDir and ?fs1.0=fs1
      and ?fs2.0=fs2 and e=e and ?fs3.0=fs3]
  show s: "fs_Save rootDir fs req = (Inl StorageIOError, snd (Remove fs2 ?path))"
    by simp
  from a have w: "WriteFile fs1 ?path (fst (part_payload (Part req))) = (None, fs2)" by simp
  have "node_at fs2 (resolve ?path) = Some (File (fst (part_payload (Part req))))"
    using WriteFile_ok(1)[OF w, of "resolve ?path"] by simp
  moreover have "resolve ?path \<notin> set (write_denied fs2)"
    using WriteFile_ok(3,4)[OF w] by simp
  ultimately have "Remove fs2 ?path
      = (None, fs2\<lparr>nodes := AList.delete (resolve ?path) (nodes fs2)\<rparr>)"
    by (rule Remove_file)
  moreover have "snd (resolve ?path) \<noteq> []" using WriteFile_ok(6)[OF w] .
  ultimately show "node_at (snd (fs_Save rootDir fs req)) (resolve ?path) = None"
    using s by (simp add: node_at_delete)
next
  fix v fs'
  let ?path = "fs_savePath rootDir fs req"
  assume "fs_Save rootDir fs req = (Inr v, fs')"
  from fs_Save_steps[OF assms this] obtain fs1 fs2 where
    w1: "WriteFile fs1 ?path (fst (part_payload (Part req))) = (None, fs2)" and
    w2: "WriteFile fs2 (?path @ ''.meta'') (snd (part_payload (Part req))) = (None, fs')"
    by blast
  have ne: "resolve ?path \<noteq> resolve (?path @ ''.meta'')"
    unfolding fs_savePath_def by (rule resolve_path_neq_meta[OF ValidateSave_AppName[OF assms]])
  show "node_at fs' (resolve ?path) = Some (File (fst (part_payload (Part req))))"
    using WriteFile_ok(1)[OF w2, of "resolve ?path"] WriteFile_ok(1)[OF w1, of "resolve ?path"] ne
    by simp
  show "node_at fs' (resolve (?path @ ''.meta'')) = Some (File (snd (part_payload (Part req))))"
    using WriteFile_ok(1)[OF w2, of "resolve (?path @ ''.meta'')"] by simp
qed

theorem C8_sidecar_failure_removes_payload_witness:
  "ValidateSave (notes_request ''hello'' 0) \<and>
   (\<exists>fs1 fs2 fs3 e.
      MkdirAll blocked_meta_fs (Dir (fs_savePath ''root'' blocked_meta_fs (notes_request ''hello'' 0)))
        = (None, fs1) \<and>
      WriteFile fs1 (fs_savePath ''root'' blocked_meta_fs (notes_request ''hello'' 0))
        (fst (part_payload (Part (notes_request ''hello'' 0)))) = (None, fs2) \<and>
      WriteFile fs2 (fs_savePath ''root'' blocked_meta_fs (notes_request ''hello'' 0) @ ''.meta'')
        (snd (part_payload (Part (notes_request ''hello'' 0)))) = (Some e, fs3)) \<and>
   fst (fs_Save ''root'' blocked_meta_fs (notes_request ''hello'' 0)) = Inl StorageIOError \<and>
   node_at (snd (fs_Save ''root'' blocked_meta_fs (notes_request ''hello'' 0)))
     (resolve (fs_savePath ''root'' blocked_meta_fs (notes_request ''hello'' 0))) = None \<and>
   fs_Save ''root'' empty_fs (notes_request ''hello'' 0) = (Inr 1, one_note_fs) \<and>
   node_at one_note_fs (resolve (fs_savePath ''root'' empty_fs (notes_request ''hello'' 0)))
     = Some (File ''hello'') \<and>
   node_at one_note_fs
     (resolve (fs_savePath ''root'' empty_fs (notes_request ''hello'' 0) @ ''.meta''))
     = Some (File ''text/plain'')"
proof -
  let ?req = "notes_request ''hello'' 0"
  let ?path = "fs_savePath ''root'' blocked_meta_fs ?req"
  have v: "ValidateSave ?req" by code_simp
  define fs1 where "fs1 = snd (MkdirAll blocked_meta_fs (Dir ?path))"
  define fs2 where "fs2 = snd (WriteFile fs1 ?path (fst (part_payload (Part ?req))))"
  have m: "MkdirAll blocked_meta_fs (Dir ?path) = (None, fs1)"
    unfolding fs1_def by code_simp
  have w1: "WriteFile fs1 ?path (fst (part_payload (Part ?req))) = (None, fs2)"
    unfolding fs1_def fs2_def by code_simp
  have w2: "WriteFile fs2 (?path @ ''.meta'') (snd (part_payload (Part ?req))) = (Some EOTHER, fs2)"
    unfolding fs1_def fs2_def by code_simp
  have s: "fs_Save ''root'' empty_fs ?req = (Inr 1, one_note_fs)"
    unfolding one_note_fs_def by code_simp
  have p: "fst (part_payload (Part ?req)) = ''hello''"
     "snd (part_payload (Part ?req)) = ''text/plain''" by code_simp+
  note t = C8_sidecar_failure_removes_payload[OF v, where rootDir="''root''"]
  from t[where fs=blocked_meta_fs] m w1 w2
  have "fs_Save ''root'' blocked_meta_fs ?req = (Inl StorageIOError, snd (Remove fs2 ?path))"
    and "node_at (snd (fs_Save ''root'' blocked_meta_fs ?req)) (resolve ?path) = None"
    by blast+
  moreover from t[where fs=empty_fs] s p
  have "node_at one_note_fs (resolve (fs_savePath ''root'' empty_fs ?req)) = Some (File ''hello'')"
    and "node_at one_note_fs (resolve (fs_savePath ''root'' empty_fs ?req @ ''.meta''))
           = Some (File ''text/plain'')"
    by auto
  ultimately show ?thesis using v m w1 w2 s by simp
qed

subsection \<open>Deleting what is absent\<close>



subsection \<open>The largest version\<close>

lemma slices_Max_in: "slices_Max m vs \<in> set (m # vs)"
  by (induction vs arbitrary: m) (auto split: if_splits)

lemma slices_Max_ge_first: "sint m \<le> sint (slices_Max m vs)"
proof (induction vs arbitrary: m)
  case Nil show ?case by simp
next
  case (Cons v vs)
  show ?case using Cons.IH[of v] Cons.IH[of m] by (auto split: if_splits)
qed

lemma slices_Max_ge: "x \<in> set (m # vs) \<Longrightarrow> sint x \<le> sint (slices_Max m vs)"
proof (induction vs arbitrary: m)
  case Nil then show ?case by simp
next
  case (Cons v vs)
  from Cons.prems consider "x = m" | "x = v" | "x \<in> set vs" by auto
  then show ?case
  proof cases
    case 1 then show ?thesis using slices_Max_ge_first[of "if sint m < sint v then v else m" vs]
      by (auto split: if_splits)
  next
    case 2 then show ?thesis using slices_Max_ge_first[of "if sint m < sint v then v else m" vs]
      by (auto split: if_splits)
  next
    case 3 then show ?thesis using Cons.IH[of "if sint m < sint v then v else m"] by simp
  qed
qed

lemma slices_Max_eqI:
  assumes "w \<in> set (m # vs)" "\<forall>x\<in>set (m # vs). sint x \<le> sint w"
  shows "slices_Max m vs = w"
proof -
  have "sint (slices_Max m vs) \<le> sint w" using assms(2) slices_Max_in by blast
  moreover have "sint w \<le> sint (slices_Max m vs)" using assms(1) by (rule slices_Max_ge)
  ultimately show ?thesis by (simp add: signed_word_eqI)
qed

subsection \<open>Listing the keys of an artifact\<close>

lemma bucket_List_set:
  assumes "bucket_List b pfx = Inr keys"
  shows "set keys = {k. map_of (objects b) k \<noteq> None \<and> prefix pfx k}"
proof -
  from assms have "keys = sort (remdups (filter (prefix pfx) (map fst (objects b))))"
    by (auto simp: bucket_List_def split: if_splits)
  then have "set keys = {k \<in> fst ` set (objects b). prefix pfx k}" by auto
  then show ?thesis by (auto simp: map_of_eq_None_iff)
qed

lemma set_key_versions:
  "set (key_versions keys) = {v. \<exists>k\<in>set keys. ParseInt (last (split_sep k)) = Some v}"
  by (induction keys) (auto split: option.splits)

lemma s3_versions_set:
  assumes "s3_versions b req = Inr vs"
  shows "set vs = listed_versions b
           (buildKeyPrefix (AppName req) (UserID req) (SessionID req) (FileName req))"
proof -
  let ?pfx = "buildKeyPrefix (AppName req) (UserID req) (SessionID req) (FileName req)"
  from assms obtain keys where k: "bucket_List b ?pfx = Inr keys" "vs = key_versions keys"
    by (auto simp: s3_versions_def split: if_splits sum.splits)
  then show ?thesis
    by (auto simp: set_key_versions bucket_List_set[OF k(1)] listed_versions_def)
qed

lemma s3_versions_cases:
  assumes "Validate req"
  shows "s3_versions b req =
     (if buildKeyPrefix (AppName req) (UserID req) (SessionID req) (FileName req)
           \<in> set (list_fails b)
      then Inl StorageIOError
      else Inr (key_versions (sort (remdups (filter
             (prefix (buildKeyPrefix (AppName req) (UserID req) (SessionID req) (FileName req)))
             (map fst (objects b)))))))"
  using assms by (simp add: s3_versions_def bucket_List_def)

lemma buildKey_prefix: "buildKey a u s f v = buildKeyPrefix a u s f @ fmt_d (sint v)"
  by (simp add: buildKey_def buildKeyPrefix_def)

lemma split_sep_last_append:
  "CHR ''/'' \<notin> set n \<Longrightarrow> last (split_sep (x @ CHR ''/'' # n)) = n"
  by (simp add: split_sep_append split_sep_single)

lemma last_split_buildKey: "last (split_sep (buildKey a u s f v)) = fmt_d (sint v)"
proof -
  have "\<exists>x. buildKey a u s f v = x @ CHR ''/'' # fmt_d (sint v)"
    by (auto simp: buildKey_def)
  then show ?thesis using split_sep_last_append[OF fmt_d_no_sep] by metis
qed

lemma ParseInt_buildKey: "ParseInt (last (split_sep (buildKey a u s f v))) = Some v"
  by (simp add: last_split_buildKey ParseInt_fmt_sint)

lemma bucket_Write_result:
  assumes "bucket_Write b key ct d = Inr b'"
  shows "map_of (objects b') = (map_of (objects b))(key \<mapsto> \<lparr>ContentType = ct, Body = d\<rparr>)"
    and "list_fails b' = list_fails b" and "write_fails b' = write_fails b"
    and "read_fails b' = read_fails b" and "delete_fails b' = delete_fails b"
  using assms by (auto simp: bucket_Write_def update_conv' split: if_splits)

lemma listed_versions_Write:
  assumes "bucket_Write b (buildKey a u s f v) ct d = Inr b'"
  shows "listed_versions b' (buildKeyPrefix a u s f) =
           insert v (listed_versions b (buildKeyPrefix a u s f))"
proof (rule set_eqI)
  fix x
  let ?key = "buildKey a u s f v"
  let ?pfx = "buildKeyPrefix a u s f"
  note w = bucket_Write_result(1)[OF assms]
  have p: "prefix ?pfx ?key" by (simp add: buildKey_prefix)
  have pk: "ParseInt (last (split_sep ?key)) = Some v" by (rule ParseInt_buildKey)
  show "x \<in> listed_versions b' ?pfx \<longleftrightarrow> x \<in> insert v (listed_versions b ?pfx)"
  proof
    assume "x \<in> listed_versions b' ?pfx"
    then obtain k where k: "map_of (objects b') k \<noteq> None" "prefix ?pfx k"
        "ParseInt (last (split_sep k)) = Some x"
      by (auto simp: listed_versions_def)
    show "x \<in> insert v (listed_versions b ?pfx)"
    proof (cases "k = ?key")
      case True with k(3) pk show ?thesis by simp
    next
      case False
      with k(1) w have "map_of (objects b) k \<noteq> None" by simp
      with k(2,3) show ?thesis by (auto simp: listed_versions_def)
    qed
  next
    assume "x \<in> insert v (listed_versions b ?pfx)"
    then consider "x = v" | "x \<in> listed_versions b ?pfx" by auto
    then show "x \<in> listed_versions b' ?pfx"
    proof cases
      case 1
      have "map_of (objects b') ?key \<noteq> None" using w by simp
      with p pk 1 show ?thesis unfolding listed_versions_def by blast
    next
      case 2
      then obtain k where k: "map_of (objects b) k \<noteq> None" "prefix ?pfx k"
          "ParseInt (last (split_sep k)) = Some x"
        by (auto simp: listed_versions_def)
      from k(1) w have "map_of (objects b') k \<noteq> None" by simp
      with k(2,3) show ?thesis unfolding listed_versions_def by blast
    qed
  qed
qed

lemma s3_Save_steps:
  assumes "s3_Save b req = (Inr v, b')"
  shows "\<exists>vs. ValidateSave req \<and> s3_versions b (versionsRequest req) = Inr vs \<and>
     v = (case vs of [] \<Rightarrow> 1 | w # rest \<Rightarrow> slices_Max w rest + 1) \<and>
     bucket_Write b (buildKey (AppName req) (UserID req) (SessionID req) (FileName req) v)
       (snd (part_payload (Part req))) (fst (part_payload (Part req))) = Inr b'"
  using assms
  by (auto simp: s3_Save_def Let_def part_payload_def split: if_splits sum.splits option.splits)

lemma versionsRequest_fields [simp]:
  "AppName (versionsRequest r) = AppName r" "UserID (versionsRequest r) = UserID r"
  "SessionID (versionsRequest r) = SessionID r" "FileName (versionsRequest r) = FileName r"
  by (simp_all add: versionsRequest_def)

lemma at_version_fields [simp]:
  "AppName (at_version r v) = AppName r" "UserID (at_version r v) = UserID r"
  "SessionID (at_version r v) = SessionID r" "FileName (at_version r v) = FileName r"
  "Version (at_version r v) = v"
  by (simp_all add: at_version_def)

lemma Validate_versionsRequest [simp]: "Validate (versionsRequest r) = Validate r"
  by (simp add: Validate_def)

lemma Validate_at_version [simp]: "Validate (at_version r v) = Validate r"
  by (simp add: Validate_def)

lemma versionsRequest_at_version [simp]: "versionsRequest (at_version r v) = versionsRequest r"
  by (simp add: versionsRequest_def)

lemma s3_versions_versionsRequest [simp]:
  "s3_versions b (versionsRequest r) = s3_versions b r"
  by (simp add: s3_versions_def)

lemma s3_Save_then_versions:
  assumes "s3_Save b req = (Inr v, b')"
  shows "\<exists>vs vs'. s3_versions b req = Inr vs \<and> s3_versions b' req = Inr vs' \<and>
           set vs' = insert v (set vs) \<and>
           v = (case vs of [] \<Rightarrow> 1 | w # rest \<Rightarrow> slices_Max w rest + 1)"
proof -
  let ?pfx = "buildKeyPrefix (AppName req) (UserID req) (SessionID req) (FileName req)"
  from s3_Save_steps[OF assms] obtain vs where
    s: "ValidateSave req" "s3_versions b req = Inr vs"
       "v = (case vs of [] \<Rightarrow> 1 | w # rest \<Rightarrow> slices_Max w rest + 1)"
       "bucket_Write b (buildKey (AppName req) (UserID req) (SessionID req) (FileName req) v)
          (snd (part_payload (Part req))) (fst (part_payload (Part req))) = Inr b'"
    by auto
  have val: "Validate req" using s(1) by (simp add: ValidateSave_def)
  from s(2) val have nf: "?pfx \<notin> set (list_fails b)"
    by (auto simp: s3_versions_cases split: if_splits)
  then have "?pfx \<notin> set (list_fails b')" using bucket_Write_result(2)[OF s(4)] by simp
  then obtain vs' where v': "s3_versions b' req = Inr vs'"
    using val by (simp add: s3_versions_cases)
  have "set vs' = insert v (set vs)"
    using s3_versions_set[OF v'] s3_versions_set[OF s(2)] listed_versions_Write[OF s(4)] by simp
  with s v' show ?thesis by blast
qed

subsection \<open>Listing the versions in a directory\<close>

lemma child_nonempty [simp]: "snd (child l name) \<noteq> []"
  by (simp add: child_def)

lemma parent_child [simp]: "parent (child l name) = l"
  by (simp add: parent_def child_def)

lemma child_of_parent:
  assumes "snd q \<noteq> []" "parent q = l"
  shows "q = child l (last (snd q))"
proof -
  have "butlast (snd q) @ [last (snd q)] = snd q" using assms(1) by simp
  with assms(2) show ?thesis by (auto simp: parent_def child_def prod_eq_iff)
qed

lemma sort_key_eq_Nil [simp]: "sort_key f xs = [] \<longleftrightarrow> xs = []"
  by (metis set_sort set_empty)

lemma child_inj [simp]: "child l a = child l b \<longleftrightarrow> a = b"
  by (simp add: child_def)

lemma last_child [simp]: "last (snd (child l name)) = name"
  by (simp add: child_def)

lemma node_at_child: "node_at fs (child l name) = map_of (nodes fs) (child l name)"
  by (simp add: node_at_def)

lemma dir_entries_iff:
  "(name, isd) \<in> set (dir_entries fs l) \<longleftrightarrow>
     (\<exists>nd. node_at fs (child l name) = Some nd \<and> isd = (nd = Directory))"
proof
  assume "(name, isd) \<in> set (dir_entries fs l)"
  then obtain q where q: "q \<in> fst ` set (nodes fs)" "snd q \<noteq> []" "parent q = l"
      "name = last (snd q)" "isd = (node_at fs q = Some Directory)"
    by (auto simp: dir_entries_def)
  from q(2,3,4) have c: "q = child l name" by (simp add: child_of_parent)
  from q(1) obtain nd where "map_of (nodes fs) q = Some nd"
    by (metis map_of_eq_None_iff not_Some_eq)
  with c q(5) show "\<exists>nd. node_at fs (child l name) = Some nd \<and> isd = (nd = Directory)"
    by (auto simp: node_at_child)
next
  assume "\<exists>nd. node_at fs (child l name) = Some nd \<and> isd = (nd = Directory)"
  then obtain nd where nd: "node_at fs (child l name) = Some nd" "isd = (nd = Directory)" by blast
  then have "child l name \<in> fst ` set (nodes fs)"
    by (metis node_at_child map_of_eq_None_iff option.distinct(1))
  then have "child l name
      \<in> set (filter (\<lambda>q. snd q \<noteq> [] \<and> parent q = l) (remdups (map fst (nodes fs))))"
    by simp
  then have "(\<lambda>q. (last (snd q), node_at fs q = Some Directory)) (child l name)
      \<in> set (dir_entries fs l)"
    unfolding dir_entries_def set_sort set_map by (rule imageI)
  with nd show "(name, isd) \<in> set (dir_entries fs l)" by simp
qed

lemma set_entry_versions:
  "set (entry_versions es) =
     {v. \<exists>name. (name, False) \<in> set es \<and> \<not> suffix ''.meta'' name \<and> ParseInt name = Some v}"
  by (induction es rule: entry_versions.induct) (auto split: option.splits)

lemma set_entry_versions_dir: "set (entry_versions (dir_entries fs l)) = stored_versions fs l"
proof -
  have "\<And>name. (name, False) \<in> set (dir_entries fs l) \<longleftrightarrow>
      (\<exists>d. node_at fs (child l name) = Some (File d))"
    unfolding dir_entries_iff by (metis node.exhaust node.distinct(1))
  then show ?thesis by (auto simp: set_entry_versions stored_versions_def)
qed

lemma fs_Versions_readable:
  assumes "Validate req"
    and "resolve (buildDir rootDir (AppName req) (UserID req) (SessionID req) (FileName req))
           \<notin> set (read_denied fs)"
    and "node_at fs (resolve (buildDir rootDir (AppName req) (UserID req) (SessionID req)
           (FileName req))) = Some Directory"
  shows "fs_Versions rootDir fs req =
     (let vs = entry_versions (dir_entries fs (resolve (buildDir rootDir (AppName req)
                 (UserID req) (SessionID req) (FileName req))))
      in if vs = [] then Inl NotFoundError else Inr (sort_key sint vs))"
  using assms by (simp add: fs_Versions_def ReadDir_def Let_def)

lemma fs_Versions_Inr:
  assumes "fs_Versions rootDir fs req = Inr vs"
  shows "Validate req"
    and "resolve (buildDir rootDir (AppName req) (UserID req) (SessionID req) (FileName req))
           \<notin> set (read_denied fs)"
    and "node_at fs (resolve (buildDir rootDir (AppName req) (UserID req) (SessionID req)
           (FileName req))) = Some Directory"
    and "set vs = stored_versions fs (resolve (buildDir rootDir (AppName req) (UserID req)
           (SessionID req) (FileName req)))"
    and "vs \<noteq> []"
proof -
  let ?D = "resolve (buildDir rootDir (AppName req) (UserID req) (SessionID req) (FileName req))"
  from assms show v: "Validate req" by (auto simp: fs_Versions_def split: if_splits)
  from assms v obtain es where es: "ReadDir fs
      (buildDir rootDir (AppName req) (UserID req) (SessionID req) (FileName req)) = Inr es"
    by (auto simp: fs_Versions_def split: sum.splits if_splits)
  then show r: "?D \<notin> set (read_denied fs)" and d: "node_at fs ?D = Some Directory"
    by (auto simp: ReadDir_def Let_def split: if_splits option.splits node.splits)
  from assms have "entry_versions (dir_entries fs ?D) \<noteq> [] \<and>
      vs = sort_key sint (entry_versions (dir_entries fs ?D))"
    unfolding fs_Versions_readable[OF v r d] by (auto simp: Let_def split: if_splits)
  then show "set vs = stored_versions fs ?D" and "vs \<noteq> []"
    using set_entry_versions_dir[of fs ?D] by (auto simp del: set_entry_versions_dir)
qed

lemma fs_Versions_versionsRequest [simp]:
  "fs_Versions rootDir fs (versionsRequest r) = fs_Versions rootDir fs r"
  by (simp add: fs_Versions_def)

lemma set_tl_prefixes: "set (tl (prefixes xs)) = {q. prefix q xs \<and> q \<noteq> []}"
  by (cases xs) (auto simp: in_set_prefixes prefix_Cons)

lemma MkdirAll_prefixes:
  assumes "MkdirAll fs path = (None, fs')" "prefix q (snd (resolve path))"
  shows "node_at fs' (fst (resolve path), q) = Some Directory"
proof (cases "q = []")
  case True then show ?thesis by (simp add: node_at_def)
next
  case False
  let ?ls = "map (Pair (fst (resolve path))) (tl (prefixes (snd (resolve path))))"
  from assms(1) have m: "mkdir_chain fs ?ls = (None, fs')" by (simp add: MkdirAll_def Let_def)
  have "(fst (resolve path), q) \<in> set ?ls" using False assms(2) by (simp add: set_tl_prefixes)
  with mkdir_chain_result[OF m] show ?thesis by blast
qed

lemma MkdirAll_succeeds:
  assumes "\<forall>q. prefix q (snd (resolve path)) \<longrightarrow> \<not> is_file fs (fst (resolve path), q)"
    and "write_denied fs = []"
  shows "\<exists>fs'. MkdirAll fs path = (None, fs')"
proof -
  let ?ls = "map (Pair (fst (resolve path))) (tl (prefixes (snd (resolve path))))"
  have "fst (mkdir_chain fs ?ls) = None"
    using assms by (intro mkdir_chain_succeeds) (auto simp: set_tl_prefixes)
  then show ?thesis by (cases "mkdir_chain fs ?ls") (simp add: MkdirAll_def Let_def)
qed

lemma child_not_prefix: "\<not> prefix (snd (child l name)) (snd l)"
  by (auto simp: child_def prefix_def)

text \<open>What a successful save leaves behind.\<close>

lemma fs_Save_result:
  assumes "ValidateSave req" and "fs_Save rootDir fs req = (Inr v, fs')"
  defines "D \<equiv> resolve (buildDir rootDir (AppName req) (UserID req) (SessionID req) (FileName req))"
  shows "read_denied fs' = read_denied fs" and "write_denied fs' = write_denied fs"
    and "node_at fs' D = Some Directory"
    and "node_at fs' (child D name) =
           (if name = fmt_d (sint v) then Some (File (fst (part_payload (Part req))))
            else if name = fmt_d (sint v) @ ''.meta''
            then Some (File (snd (part_payload (Part req))))
            else node_at fs (child D name))"
    and "prefix q (snd D) \<Longrightarrow> node_at fs' (fst D, q) = Some Directory"
    and "v = fs_nextVersion rootDir fs req"
    and "resolve (buildPath rootDir (AppName req) (UserID req) (SessionID req) (FileName req) v)
           = child D (fmt_d (sint v))"
    and "resolve (buildPath rootDir (AppName req) (UserID req) (SessionID req) (FileName req) v
           @ ''.meta'') = child D (fmt_d (sint v) @ ''.meta'')"
proof -
  let ?path = "fs_savePath rootDir fs req"
  from fs_Save_steps[OF assms(1,2)] obtain fs1 fs2 where
    v: "v = fs_nextVersion rootDir fs req" and
    m: "MkdirAll fs (Dir ?path) = (None, fs1)" and
    w1: "WriteFile fs1 ?path (fst (part_payload (Part req))) = (None, fs2)" and
    w2: "WriteFile fs2 (?path @ ''.meta'') (snd (part_payload (Part req))) = (None, fs')"
    by blast
  have a: "AppName req \<noteq> []" using assms(1) by (rule ValidateSave_AppName)
  have p: "?path = buildPath rootDir (AppName req) (UserID req) (SessionID req) (FileName req) v"
    by (simp add: fs_savePath_def v)
  have rd: "resolve (Dir ?path) = D" unfolding p D_def by (rule resolve_Dir_buildPath[OF a])
  have rp: "resolve ?path = child D (fmt_d (sint v))"
    unfolding p D_def child_def by (rule resolve_buildPath[OF a])
  have rm: "resolve (?path @ ''.meta'') = child D (fmt_d (sint v) @ ''.meta'')"
    unfolding p D_def child_def by (rule resolve_buildPath_meta[OF a])
  show "v = fs_nextVersion rootDir fs req" by (rule v)
  from rp p show "resolve (buildPath rootDir (AppName req) (UserID req) (SessionID req)
      (FileName req) v) = child D (fmt_d (sint v))" by simp
  from rm p show "resolve (buildPath rootDir (AppName req) (UserID req) (SessionID req)
      (FileName req) v @ ''.meta'') = child D (fmt_d (sint v) @ ''.meta'')" by simp
  show "read_denied fs' = read_denied fs"
    using MkdirAll_result(1)[OF m] WriteFile_ok(2)[OF w1] WriteFile_ok(2)[OF w2] by simp
  show "write_denied fs' = write_denied fs"
    using MkdirAll_result(2)[OF m] WriteFile_ok(3)[OF w1] WriteFile_ok(3)[OF w2] by simp
  have neD: "D \<noteq> child D n" for n by (simp add: child_def prod_eq_iff)
  have d1: "node_at fs1 D = Some Directory" using MkdirAll_result(6)[OF m] rd by simp
  show "node_at fs' D = Some Directory"
    using WriteFile_ok(1)[OF w2, of D] WriteFile_ok(1)[OF w1, of D] d1 rp rm neD by simp
  have c1: "node_at fs1 (child D name) = node_at fs (child D name)"
    using MkdirAll_result(4)[OF m, of "child D name"] rd child_not_prefix[of D name] by simp
  have nm: "fmt_d (sint v) \<noteq> fmt_d (sint v) @ ''.meta''" by simp
  show "node_at fs' (child D name) =
           (if name = fmt_d (sint v) then Some (File (fst (part_payload (Part req))))
            else if name = fmt_d (sint v) @ ''.meta''
            then Some (File (snd (part_payload (Part req))))
            else node_at fs (child D name))"
    using WriteFile_ok(1)[OF w2, of "child D name"] WriteFile_ok(1)[OF w1, of "child D name"]
      c1 rp rm by auto
  show "node_at fs' (fst D, q) = Some Directory" if q: "prefix q (snd D)"
  proof -
    have "node_at fs1 (fst D, q) = Some Directory"
      using MkdirAll_prefixes[OF m, of q] q rd by simp
    moreover have "(fst D, q) \<noteq> child D n" for n
      using q by (auto simp: child_def prefix_def)
    ultimately show ?thesis
      using WriteFile_ok(1)[OF w2, of "(fst D, q)"] WriteFile_ok(1)[OF w1, of "(fst D, q)"] rp rm
      by simp
  qed
qed

lemma stored_versions_Save:
  assumes "ValidateSave req" and "fs_Save rootDir fs req = (Inr v, fs')"
  shows "stored_versions fs'
           (resolve (buildDir rootDir (AppName req) (UserID req) (SessionID req) (FileName req)))
         = insert v (stored_versions fs
           (resolve (buildDir rootDir (AppName req) (UserID req) (SessionID req) (FileName req))))"
proof (rule set_eqI)
  fix x
  let ?D = "resolve (buildDir rootDir (AppName req) (UserID req) (SessionID req) (FileName req))"
  note c = fs_Save_result(4)[OF assms]
  have nm: "\<not> suffix ''.meta'' (fmt_d (sint v))" by (rule fmt_d_not_meta)
  have sm: "suffix ''.meta'' (fmt_d (sint v) @ ''.meta'')" by (simp add: suffix_def)
  have pv: "ParseInt (fmt_d (sint v)) = Some v" by (rule ParseInt_fmt_sint)
  show "x \<in> stored_versions fs' ?D \<longleftrightarrow> x \<in> insert v (stored_versions fs ?D)"
  proof
    assume "x \<in> stored_versions fs' ?D"
    then obtain name d where n: "node_at fs' (child ?D name) = Some (File d)"
        "\<not> suffix ''.meta'' name" "ParseInt name = Some x"
      by (auto simp: stored_versions_def)
    show "x \<in> insert v (stored_versions fs ?D)"
    proof (cases "name = fmt_d (sint v)")
      case True with n(3) pv show ?thesis by simp
    next
      case False
      moreover have "name \<noteq> fmt_d (sint v) @ ''.meta''" using n(2) sm by auto
      ultimately have "node_at fs (child ?D name) = Some (File d)" using n(1) c[of name] by simp
      with n(2,3) show ?thesis unfolding stored_versions_def by blast
    qed
  next
    assume "x \<in> insert v (stored_versions fs ?D)"
    then consider "x = v" | "x \<in> stored_versions fs ?D" by auto
    then show "x \<in> stored_versions fs' ?D"
    proof cases
      case 1
      have "node_at fs' (child ?D (fmt_d (sint v))) = Some (File (fst (part_payload (Part req))))"
        using c[of "fmt_d (sint v)"] by simp
      with nm pv 1 show ?thesis unfolding stored_versions_def by blast
    next
      case 2
      then obtain name d where n: "node_at fs (child ?D name) = Some (File d)"
          "\<not> suffix ''.meta'' name" "ParseInt name = Some x"
        by (auto simp: stored_versions_def)
      have "name \<noteq> fmt_d (sint v) @ ''.meta''" using n(2) sm by auto
      then have "\<exists>d'. node_at fs' (child ?D name) = Some (File d')"
        using c[of name] n(1) by simp
      with n(2,3) show ?thesis unfolding stored_versions_def by blast
    qed
  qed
qed

subsection \<open>Save, then load\<close>

lemma slices_Max_after_zero:
  assumes "slices_Max w rest + 1 = 0" and "set (h # t) = insert 0 (set (w # rest))"
  shows "slices_Max h t = 0"
proof (rule slices_Max_eqI)
  show "0 \<in> set (h # t)" using assms(2) by simp
  have "slices_Max w rest = - 1" using assms(1) by (simp add: eq_neg_iff_add_eq_0)
  then have m: "sint (slices_Max w rest) = - 1" by simp
  show "\<forall>x\<in>set (h # t). sint x \<le> sint (0 :: int64)"
  proof
    fix x assume "x \<in> set (h # t)"
    with assms(2) consider "x = 0" | "x \<in> set (w # rest)" by auto
    then show "sint x \<le> sint (0 :: int64)"
    proof cases
      case 1 then show ?thesis by simp
    next
      case 2
      from slices_Max_ge[OF 2] m show ?thesis by simp
    qed
  qed
qed

lemma fs_loadVersion_after_Save:
  assumes "ValidateSave req" and "fs_Save rootDir fs req = (Inr v, fs')"
  shows "fs_loadVersion rootDir fs' (at_version req v) = Inr v"
proof (cases "v = 0")
  case False
  then show ?thesis by (simp add: fs_loadVersion_def)
next
  case True
  let ?D = "resolve (buildDir rootDir (AppName req) (UserID req) (SessionID req) (FileName req))"
  have val: "Validate req" using assms(1) by (simp add: ValidateSave_def)
  have nv: "fs_nextVersion rootDir fs req = 0" using fs_Save_result(6)[OF assms] True by simp
  then have "\<not> 0 < sint (Version req)" by (auto simp: fs_nextVersion_def split: if_splits)
  with nv obtain w rest where wr: "fs_Versions rootDir fs req = Inr (w # rest)"
      "slices_Max w rest + 1 = 0"
    by (auto simp: fs_nextVersion_def split: if_splits sum.splits list.splits)
  note old = fs_Versions_Inr[OF wr(1)]
  have r: "?D \<notin> set (read_denied fs')" using old(2) fs_Save_result(1)[OF assms] by simp
  have d: "node_at fs' ?D = Some Directory" by (rule fs_Save_result(3)[OF assms])
  have st: "stored_versions fs' ?D = insert 0 (set (w # rest))"
    using stored_versions_Save[OF assms] old(4) True by simp
  define vs where "vs = entry_versions (dir_entries fs' ?D)"
  have sv: "set vs = insert 0 (set (w # rest))"
    unfolding vs_def using st by (simp add: set_entry_versions_dir)
  then have "vs \<noteq> []" by auto
  then have V: "fs_Versions rootDir fs' req = Inr (sort_key sint vs)"
    unfolding fs_Versions_readable[OF val r d] vs_def by (simp add: Let_def)
  obtain h t where ht: "sort_key sint vs = h # t"
    using \<open>vs \<noteq> []\<close> by (cases "sort_key sint vs") auto
  have "set (h # t) = insert 0 (set (w # rest))" using sv ht by (metis set_sort)
  with wr(2) have "slices_Max h t = 0" by (rule slices_Max_after_zero)
  with V ht True show ?thesis by (simp add: fs_loadVersion_def)
qed

lemma ReadFile_file:
  assumes "node_at fs (resolve path) = Some (File d)" "resolve path \<notin> set (read_denied fs)"
  shows "ReadFile fs path = Inr d"
  using assms by (simp add: ReadFile_def Let_def)

lemma fs_Save_then_Load:
  assumes "ValidateSave req" and "fs_Save rootDir fs req = (Inr v, fs')"
    and "resolve (buildPath rootDir (AppName req) (UserID req) (SessionID req) (FileName req) v)
           \<notin> set (read_denied fs)"
    and "resolve (buildPath rootDir (AppName req) (UserID req) (SessionID req) (FileName req) v
           @ ''.meta'') \<notin> set (read_denied fs)"
  shows "fs_Load rootDir fs' (at_version req v) =
           Inr (NewPartFromBytes (fst (part_payload (Part req))) (snd (part_payload (Part req))))"
proof -
  let ?D = "resolve (buildDir rootDir (AppName req) (UserID req) (SessionID req) (FileName req))"
  let ?path = "buildPath rootDir (AppName req) (UserID req) (SessionID req) (FileName req) v"
  have val: "Validate req" using assms(1) by (simp add: ValidateSave_def)
  note r = fs_Save_result[OF assms(1,2)]
  have "node_at fs' (resolve ?path) = Some (File (fst (part_payload (Part req))))"
    using r(4)[of "fmt_d (sint v)"] r(7) by simp
  then have p: "ReadFile fs' ?path = Inr (fst (part_payload (Part req)))"
    using assms(3) r(1) by (intro ReadFile_file) simp_all
  have "node_at fs' (resolve (?path @ ''.meta'')) = Some (File (snd (part_payload (Part req))))"
    using r(4)[of "fmt_d (sint v) @ ''.meta''"] r(8) by simp
  then have m: "ReadFile fs' (?path @ ''.meta'') = Inr (snd (part_payload (Part req)))"
    using assms(4) r(1) by (intro ReadFile_file) simp_all
  show ?thesis
    using val p m fs_loadVersion_after_Save[OF assms(1,2)]
    by (simp add: fs_Load_def Let_def)
qed

lemma s3_Save_then_Load:
  assumes "s3_Save b req = (Inr v, b')"
    and "buildKey (AppName req) (UserID req) (SessionID req) (FileName req) v
           \<notin> set (read_fails b)"
  shows "s3_Load b' (at_version req v) =
           Inr (NewPartFromBytes (fst (part_payload (Part req))) (snd (part_payload (Part req))))"
proof -
  let ?key = "buildKey (AppName req) (UserID req) (SessionID req) (FileName req) v"
  from s3_Save_steps[OF assms(1)] have
    vs: "ValidateSave req" and
    w: "bucket_Write b ?key (snd (part_payload (Part req))) (fst (part_payload (Part req)))
          = Inr b'"
    by auto
  have val: "Validate req" using vs by (simp add: ValidateSave_def)
  from s3_Save_then_versions[OF assms(1)] obtain vs vs' where
    l: "s3_versions b req = Inr vs" "s3_versions b' req = Inr vs'"
       "set vs' = insert v (set vs)"
       "v = (case vs of [] \<Rightarrow> 1 | w # rest \<Rightarrow> slices_Max w rest + 1)"
    by blast
  have ver: "s3_loadVersion b' (at_version req v) = Inr v"
  proof (cases "v = 0")
    case False then show ?thesis by (simp add: s3_loadVersion_def)
  next
    case True
    with l(4) obtain w rest where wr: "vs = w # rest" "slices_Max w rest + 1 = 0"
      by (cases vs) auto
    from l(3) obtain h t where ht: "vs' = h # t" by (cases vs') auto
    have "set (h # t) = insert 0 (set (w # rest))" using l(3) ht wr(1) True by simp
    with wr(2) have "slices_Max h t = 0" by (rule slices_Max_after_zero)
    with l(2) ht True show ?thesis by (simp add: s3_loadVersion_def)
  qed
  have "bucket_Read b' ?key
      = Inr \<lparr>ContentType = snd (part_payload (Part req)), Body = fst (part_payload (Part req))\<rparr>"
    using assms(2) bucket_Write_result(1,4)[OF w] by (simp add: bucket_Read_def)
  with val ver show ?thesis by (simp add: s3_Load_def)
qed



subsection \<open>Saves to a fresh identity\<close>

lemma sint_of_nat_small: "n < 2 ^ 63 \<Longrightarrow> sint (of_nat n :: int64) = int n"
proof -
  assume "n < 2 ^ 63"
  then have "int n < 2 ^ 63" by (metis of_nat_less_iff of_nat_numeral of_nat_power)
  then show ?thesis by (simp add: signed_of_nat signed_take_bit_int_eq_self)
qed

lemma next_version_of_range:
  assumes "set vs = of_nat ` {1..k}" "Suc k < 2 ^ 63"
  shows "(case vs of [] \<Rightarrow> 1 | w # rest \<Rightarrow> slices_Max w rest + 1) = (of_nat (Suc k) :: int64)"
proof (cases vs)
  case Nil
  with assms(1) have "k = 0" by auto
  with Nil show ?thesis by simp
next
  case (Cons w rest)
  with assms(1) have k: "1 \<le> k" by (cases k) auto
  have "slices_Max w rest = of_nat k"
  proof (rule slices_Max_eqI)
    show "of_nat k \<in> set (w # rest)" using assms(1) Cons k by auto
    show "\<forall>x\<in>set (w # rest). sint x \<le> sint (of_nat k :: int64)"
    proof
      fix x assume "x \<in> set (w # rest)"
      with assms(1) Cons obtain j where j: "x = of_nat j" "j \<le> k" by auto
      with assms(2) show "sint x \<le> sint (of_nat k :: int64)"
        by (simp add: sint_of_nat_small)
    qed
  qed
  with Cons show ?thesis by simp
qed

lemma save_request_fields [simp]:
  "AppName (save_request r p) = AppName r" "UserID (save_request r p) = UserID r"
  "SessionID (save_request r p) = SessionID r" "FileName (save_request r p) = FileName r"
  "Version (save_request r p) = 0" "Part (save_request r p) = p"
  by (simp_all add: save_request_def)

lemma ValidateSave_save_request [simp]:
  "ValidateSave (save_request r p) \<longleftrightarrow> Validate r \<and> valid_part p"
  by (simp add: ValidateSave_def Validate_def valid_part_def)

lemma s3_versions_save_request [simp]: "s3_versions b (save_request r p) = s3_versions b r"
  by (simp add: s3_versions_def Validate_def)

lemma fs_Versions_save_request [simp]:
  "fs_Versions rootDir fs (save_request r p) = fs_Versions rootDir fs r"
  by (simp add: fs_Versions_def Validate_def)

lemma upt_Suc_shift: "Suc k # [Suc (Suc k)..<Suc (Suc (k + n))] = [Suc k..<Suc (k + Suc n)]"
  by (simp add: upt_conv_Cons)

lemma of_nat_range_Suc:
  "insert (of_nat (Suc k) :: int64) (of_nat ` {1..k}) = of_nat ` {1..Suc k}"
  by (simp add: atLeastAtMostSuc_conv)

lemma s3_Save_success:
  assumes "ValidateSave req" "s3_versions b (versionsRequest req) = Inr vs" "write_fails b = []"
  shows "\<exists>b'. s3_Save b req
           = (Inr (case vs of [] \<Rightarrow> 1 | w # rest \<Rightarrow> slices_Max w rest + 1), b')"
  using assms
  by (cases "InlineData (Part req)") (simp_all add: s3_Save_def Let_def bucket_Write_def)

lemma s3_Save_numbered:
  assumes "Validate req" "valid_part p" "Suc k < 2 ^ 63"
    and "s3_versions b req = Inr vs" "set vs = of_nat ` {1..k}" "write_fails b = []"
  shows "\<exists>b' vs'. s3_Save b (save_request req p) = (Inr (of_nat (Suc k)), b') \<and>
           s3_versions b' req = Inr vs' \<and> set vs' = of_nat ` {1..Suc k} \<and> write_fails b' = []"
proof -
  let ?r = "save_request req p"
  have nv: "(case vs of [] \<Rightarrow> 1 | w # rest \<Rightarrow> slices_Max w rest + 1) = (of_nat (Suc k) :: int64)"
    using assms(5,3) by (rule next_version_of_range)
  obtain b' where s: "s3_Save b ?r = (Inr (of_nat (Suc k)), b')"
    using s3_Save_success[of ?r b vs] assms(1,2,4,6) nv by (auto simp del: of_nat_Suc)
  from s3_Save_then_versions[OF s] obtain vs0 vs' where
    v: "s3_versions b ?r = Inr vs0" "s3_versions b' ?r = Inr vs'"
       "set vs' = insert (of_nat (Suc k)) (set vs0)" by blast
  from v(1) assms(4) have "vs0 = vs" by simp
  with v(3) assms(5) have "set vs' = of_nat ` {1..Suc k}"
    by (simp only: of_nat_range_Suc)
  moreover have "write_fails b' = []"
    using s3_Save_steps[OF s] bucket_Write_result(3) assms(6) by metis
  ultimately show ?thesis using s v(2) by auto
qed

lemma s3_save_all_numbered:
  assumes "Validate req" "list_all valid_part parts" "k + length parts < 2 ^ 63"
    and "s3_versions b req = Inr vs" "set vs = of_nat ` {1..k}" "write_fails b = []"
  shows "fst (s3_save_all b (map (save_request req) parts))
           = Inr (map of_nat [Suc k..<Suc (k + length parts)])"
  using assms
proof (induction parts arbitrary: b vs k)
  case Nil then show ?case by simp
next
  case (Cons p ps)
  have k: "Suc k < 2 ^ 63" using Cons.prems(3) by simp
  from s3_Save_numbered[OF Cons.prems(1) _ k Cons.prems(4,5,6), of p] Cons.prems(2)
  obtain b' vs' where s: "s3_Save b (save_request req p) = (Inr (of_nat (Suc k)), b')"
      "s3_versions b' req = Inr vs'" "set vs' = of_nat ` {1..Suc k}" "write_fails b' = []"
    by auto
  have "fst (s3_save_all b' (map (save_request req) ps))
          = Inr (map of_nat [Suc (Suc k)..<Suc (Suc k + length ps)])"
    using Cons.prems(1,2,3) s(2,3,4) by (intro Cons.IH) auto
  then obtain b'' where "s3_save_all b' (map (save_request req) ps)
          = (Inr (map of_nat [Suc (Suc k)..<Suc (Suc k + length ps)]), b'')"
    by (cases "s3_save_all b' (map (save_request req) ps)") auto
  moreover have "[Suc k..<Suc (k + length (p # ps))]
      = Suc k # [Suc (Suc k)..<Suc (Suc k + length ps)]"
    by (simp add: upt_conv_Cons del: upt_Suc)
  ultimately show ?case using s(1) by (simp del: of_nat_Suc upt_Suc)
qed

lemma fs_Save_success:
  assumes "ValidateSave req"
    and "MkdirAll fs (Dir (fs_savePath rootDir fs req)) = (None, fs1)"
    and "WriteFile fs1 (fs_savePath rootDir fs req) (fst (part_payload (Part req))) = (None, fs2)"
    and "WriteFile fs2 (fs_savePath rootDir fs req @ ''.meta'') (snd (part_payload (Part req)))
           = (None, fs3)"
  shows "fs_Save rootDir fs req = (Inr (fs_nextVersion rootDir fs req), fs3)"
proof -
  obtain d ct where pp: "part_payload (Part req) = (d, ct)" by (cases "part_payload (Part req)")
  with assms show ?thesis
    by (simp add: fs_Save_def fs_savePath_def Let_def)
qed

lemma fs_nextVersion_numbered:
  assumes "Validate req" "fs_numbered rootDir fs req k" "Suc k < 2 ^ 63"
  shows "fs_nextVersion rootDir fs (save_request req p) = of_nat (Suc k)"
proof -
  let ?D = "resolve (buildDir rootDir (AppName req) (UserID req) (SessionID req) (FileName req))"
  from assms(2) have inv: "?D \<notin> set (read_denied fs)"
      "stored_versions fs ?D = of_nat ` {1..k}" "k = 0 \<or> node_at fs ?D = Some Directory"
    by (simp_all add: fs_numbered_def Let_def)
  have nv: "fs_nextVersion rootDir fs (save_request req p) =
      (case fs_Versions rootDir fs req of Inr (v # rest) \<Rightarrow> slices_Max v rest + 1 | _ \<Rightarrow> 1)"
    by (simp add: fs_nextVersion_def)
  show ?thesis
  proof (cases "fs_Versions rootDir fs req")
    case (Inr vs)
    note V = fs_Versions_Inr[OF Inr]
    from V(4) inv(2) have "set vs = of_nat ` {1..k}" by simp
    from next_version_of_range[OF this assms(3)] V(5) Inr nv show ?thesis
      by (cases vs) (simp_all del: of_nat_Suc)
  next
    case (Inl e)
    have "k = 0"
    proof (rule ccontr)
      assume "k \<noteq> 0"
      with inv(3) have d: "node_at fs ?D = Some Directory" by simp
      have "set (entry_versions (dir_entries fs ?D)) \<noteq> {}"
        using inv(2) \<open>k \<noteq> 0\<close> by (simp add: set_entry_versions_dir)
      then have "entry_versions (dir_entries fs ?D) \<noteq> []" by auto
      with Inl show False
        unfolding fs_Versions_readable[OF assms(1) inv(1) d] by (simp add: Let_def)
    qed
    with Inl nv show ?thesis by simp
  qed
qed

lemma fs_Save_numbered:
  assumes "Validate req" "valid_part p" "fs_numbered rootDir fs req k" "Suc k < 2 ^ 63"
  shows "\<exists>fs'. fs_Save rootDir fs (save_request req p) = (Inr (of_nat (Suc k)), fs') \<and>
           fs_numbered rootDir fs' req (Suc k)"
proof -
  let ?r = "save_request req p"
  let ?D = "resolve (buildDir rootDir (AppName req) (UserID req) (SessionID req) (FileName req))"
  let ?v = "of_nat (Suc k) :: int64"
  let ?path = "fs_savePath rootDir fs ?r"
  let ?d = "fst (part_payload (Part ?r))" and ?ct = "snd (part_payload (Part ?r))"
  from assms(3) have inv: "write_denied fs = []" "?D \<notin> set (read_denied fs)"
      "\<forall>q. prefix q (snd ?D) \<longrightarrow> \<not> is_file fs (fst ?D, q)"
      "\<forall>name. node_at fs (child ?D name) \<noteq> Some Directory"
      "stored_versions fs ?D = of_nat ` {1..k}"
    by (simp_all add: fs_numbered_def Let_def)
  have vr: "ValidateSave ?r" using assms(1,2) by simp
  have a: "AppName req \<noteq> []" using assms(1) by (simp add: Validate_def)
  have nv: "fs_nextVersion rootDir fs ?r = ?v" by (rule fs_nextVersion_numbered[OF assms(1,3,4)])
  have p: "?path = buildPath rootDir (AppName req) (UserID req) (SessionID req) (FileName req) ?v"
    by (simp add: fs_savePath_def nv del: of_nat_Suc)
  have rd: "resolve (Dir ?path) = ?D" unfolding p by (rule resolve_Dir_buildPath[OF a])
  have rp: "resolve ?path = child ?D (fmt_d (sint ?v))"
    unfolding p child_def by (rule resolve_buildPath[OF a])
  have rm: "resolve (?path @ ''.meta'') = child ?D (fmt_d (sint ?v) @ ''.meta'')"
    unfolding p child_def by (rule resolve_buildPath_meta[OF a])
  obtain fs1 where m: "MkdirAll fs (Dir ?path) = (None, fs1)"
    using MkdirAll_succeeds[of "Dir ?path" fs] inv(1,3) rd by auto
  have w1d: "write_denied fs1 = []" using MkdirAll_result(2)[OF m] inv(1) by simp
  have c1: "node_at fs1 (child ?D n) = node_at fs (child ?D n)" for n
    using MkdirAll_result(4)[OF m, of "child ?D n"] rd child_not_prefix[of ?D n] by simp
  have d1: "node_at fs1 ?D = Some Directory" using MkdirAll_result(6)[OF m] rd by simp
  obtain fs2 where w1: "WriteFile fs1 ?path ?d = (None, fs2)"
    using WriteFile_succeeds[of ?path fs1 ?d] w1d c1 d1 inv(4) rp by auto
  have neD: "?D \<noteq> child ?D n" for n by (simp add: child_def prod_eq_iff)
  have w2d: "write_denied fs2 = []" using WriteFile_ok(3)[OF w1] w1d by simp
  have d2: "node_at fs2 ?D = Some Directory"
    using WriteFile_ok(1)[OF w1, of ?D] d1 rp neD by simp
  have c2: "node_at fs2 (child ?D (fmt_d (sint ?v) @ ''.meta''))
      = node_at fs (child ?D (fmt_d (sint ?v) @ ''.meta''))"
    using WriteFile_ok(1)[OF w1, of "child ?D (fmt_d (sint ?v) @ ''.meta'')"] c1 rp by simp
  obtain fs3 where w2: "WriteFile fs2 (?path @ ''.meta'') ?ct = (None, fs3)"
    using WriteFile_succeeds[of "?path @ ''.meta''" fs2 ?ct] w2d c2 d2 inv(4) rm by auto
  have s: "fs_Save rootDir fs ?r = (Inr ?v, fs3)"
    using fs_Save_success[OF vr m w1 w2] nv by simp
  note r = fs_Save_result[OF vr s]
  have st: "stored_versions fs3 ?D = of_nat ` {1..Suc k}"
    using stored_versions_Save[OF vr s] inv(5) by (simp only: save_request_fields of_nat_range_Suc)
  have "fs_numbered rootDir fs3 req (Suc k)"
    unfolding fs_numbered_def Let_def
  proof (intro conjI allI impI)
    show "write_denied fs3 = []" using r(2) inv(1) by simp
    show "?D \<notin> set (read_denied fs3)" using r(1) inv(2) by simp
    show "\<not> is_file fs3 (fst ?D, q)" if "prefix q (snd ?D)" for q
      using r(5)[of q] that by (simp add: is_file_def)
    show "node_at fs3 (child ?D name) \<noteq> Some Directory" for name
      using r(4)[of name] inv(4) by (simp del: of_nat_Suc)
    show "stored_versions fs3 ?D = of_nat ` {1..Suc k}" by (rule st)
    show "Suc k = 0 \<or> node_at fs3 ?D = Some Directory" using r(3) by simp
  qed
  with s show ?thesis by blast
qed

lemma fs_save_all_numbered:
  assumes "Validate req" "list_all valid_part parts" "k + length parts < 2 ^ 63"
    and "fs_numbered rootDir fs req k"
  shows "fst (fs_save_all rootDir fs (map (save_request req) parts))
           = Inr (map of_nat [Suc k..<Suc (k + length parts)])"
  using assms
proof (induction parts arbitrary: fs k)
  case Nil then show ?case by simp
next
  case (Cons p ps)
  have k: "Suc k < 2 ^ 63" using Cons.prems(3) by simp
  from fs_Save_numbered[OF Cons.prems(1) _ Cons.prems(4) k, of p] Cons.prems(2)
  obtain fs' where s: "fs_Save rootDir fs (save_request req p) = (Inr (of_nat (Suc k)), fs')"
      "fs_numbered rootDir fs' req (Suc k)"
    by auto
  have "fst (fs_save_all rootDir fs' (map (save_request req) ps))
          = Inr (map of_nat [Suc (Suc k)..<Suc (Suc k + length ps)])"
    using Cons.prems(1,2,3) s(2) by (intro Cons.IH) auto
  then obtain fs'' where "fs_save_all rootDir fs' (map (save_request req) ps)
          = (Inr (map of_nat [Suc (Suc k)..<Suc (Suc k + length ps)]), fs'')"
    by (cases "fs_save_all rootDir fs' (map (save_request req) ps)") auto
  moreover have "[Suc k..<Suc (k + length (p # ps))]
      = Suc k # [Suc (Suc k)..<Suc (Suc k + length ps)]"
    by (simp add: upt_conv_Cons del: upt_Suc)
  ultimately show ?case using s(1) by (simp del: of_nat_Suc upt_Suc)
qed

lemma fs_fresh_numbered:
  assumes "fs_fresh rootDir fs req"
  shows "fs_numbered rootDir fs req 0"
proof -
  let ?D = "resolve (buildDir rootDir (AppName req) (UserID req) (SessionID req) (FileName req))"
  from assms have f: "entry_versions (dir_entries fs ?D) = []"
      "list_all (\<lambda>e. \<not> snd e) (dir_entries fs ?D)"
      "list_all (\<lambda>q. \<not> is_file fs (fst ?D, q)) (prefixes (snd ?D))"
      "?D \<notin> set (read_denied fs)" "write_denied fs = []"
    by (simp_all add: fs_fresh_def Let_def)
  have "stored_versions fs ?D = {}"
    using f(1) set_entry_versions_dir[of fs ?D] by simp
  moreover have "node_at fs (child ?D name) \<noteq> Some Directory" for name
  proof
    assume "node_at fs (child ?D name) = Some Directory"
    then have "(name, True) \<in> set (dir_entries fs ?D)" by (simp add: dir_entries_iff)
    with f(2) show False by (auto simp: list_all_iff)
  qed
  moreover have "\<not> is_file fs (fst ?D, q)" if "prefix q (snd ?D)" for q
    using f(3) that by (simp add: list_all_iff in_set_prefixes)
  ultimately show ?thesis using f(4,5) by (simp add: fs_numbered_def Let_def)
qed



subsection \<open>Deleting one version\<close>

lemma map_fst_delete: "map fst (AList.delete k al) = filter (\<lambda>q. q \<noteq> k) (map fst al)"
  by (induction al) auto

lemma dir_entries_delete:
  "dir_entries (fs\<lparr>nodes := AList.delete (child D name) (nodes fs)\<rparr>) D
     = filter (\<lambda>e. fst e \<noteq> name) (dir_entries fs D)"
proof -
  let ?l = "child D name"
  let ?fs' = "fs\<lparr>nodes := AList.delete ?l (nodes fs)\<rparr>"
  let ?g = "\<lambda>q. (last (snd q), node_at fs q = Some Directory)"
  let ?g' = "\<lambda>q. (last (snd q), node_at ?fs' q = Some Directory)"
  let ?Q = "\<lambda>q. snd q \<noteq> [] \<and> parent q = D"
  let ?zs = "filter ?Q (remdups (map fst (nodes fs)))"
  have sw: "filter ?Q (filter (\<lambda>q. q \<noteq> ?l) ys) = filter (\<lambda>q. q \<noteq> ?l) (filter ?Q ys)" for ys
    by (induction ys) auto
  have "remdups (map fst (nodes ?fs')) = filter (\<lambda>q. q \<noteq> ?l) (remdups (map fst (nodes fs)))"
    by (simp add: map_fst_delete remdups_filter)
  then have k: "filter ?Q (remdups (map fst (nodes ?fs'))) = filter (\<lambda>q. q \<noteq> ?l) ?zs"
    by (simp only: sw)
  have g: "map ?g' (filter (\<lambda>q. q \<noteq> ?l) ?zs) = map ?g (filter (\<lambda>q. q \<noteq> ?l) ?zs)"
  proof (rule map_cong)
    fix z assume "z \<in> set (filter (\<lambda>q. q \<noteq> ?l) ?zs)"
    then have "z \<noteq> ?l" by simp
    then have "node_at ?fs' z = node_at fs z" by (simp add: node_at_delete)
    then show "?g' z = ?g z" by simp
  qed simp
  have f: "filter (\<lambda>q. q \<noteq> ?l) ?zs = filter ((\<lambda>e. fst e \<noteq> name) \<circ> ?g) ?zs"
  proof (rule filter_cong)
    fix z assume "z \<in> set ?zs"
    then have "snd z \<noteq> []" "parent z = D" by simp_all
    then have "z = child D (last (snd z))" by (rule child_of_parent)
    then obtain n where n: "z = child D n" ..
    then have "last (snd z) = n" by simp
    with n show "(z \<noteq> ?l) = ((\<lambda>e. fst e \<noteq> name) \<circ> ?g) z" by simp
  qed simp
  have "dir_entries ?fs' D = sort_key fst (map ?g' (filter (\<lambda>q. q \<noteq> ?l) ?zs))"
    unfolding dir_entries_def k ..
  also have "\<dots> = sort_key fst (map ?g (filter (\<lambda>q. q \<noteq> ?l) ?zs))"
    by (simp only: g)
  also have "\<dots> = sort_key fst (map ?g (filter ((\<lambda>e. fst e \<noteq> name) \<circ> ?g) ?zs))"
    by (simp only: f)
  also have "\<dots> = sort_key fst (filter (\<lambda>e. fst e \<noteq> name) (map ?g ?zs))"
    by (simp only: filter_map)
  also have "\<dots> = filter (\<lambda>e. fst e \<noteq> name) (dir_entries fs D)"
    unfolding dir_entries_def by (rule filter_sort[symmetric])
  finally show ?thesis .
qed

lemma dir_entries_no_name:
  assumes "node_at fs (child D name) = None"
  shows "filter (\<lambda>e. fst e \<noteq> name) (dir_entries fs D) = dir_entries fs D"
proof (rule filter_True, rule ballI)
  fix e assume "e \<in> set (dir_entries fs D)"
  then have "(fst e, snd e) \<in> set (dir_entries fs D)" by simp
  then obtain nd where "node_at fs (child D (fst e)) = Some nd"
    unfolding dir_entries_iff by blast
  with assms show "fst e \<noteq> name" by auto
qed

lemma Remove_entries:
  assumes "Remove fs path = (e, fs')" "resolve path = child D name" "e = None \<or> e = Some ENOENT"
  shows "dir_entries fs' D = filter (\<lambda>e. fst e \<noteq> name) (dir_entries fs D)"
proof (cases e)
  case None
  with assms(1) have "fs' = fs\<lparr>nodes := AList.delete (resolve path) (nodes fs)\<rparr>"
    by (auto simp: Remove_def Let_def split: if_splits option.splits node.splits)
  then show ?thesis by (simp add: assms(2) dir_entries_delete)
next
  case (Some x)
  with assms(3) have x: "e = Some ENOENT" by simp
  with assms(1) have "fs' = fs" "node_at fs (resolve path) = None"
    by (auto simp: Remove_def Let_def split: if_splits option.splits node.splits)
  then show ?thesis using dir_entries_no_name[of fs D name] assms(2) by simp
qed

lemma Remove_entries_any:
  assumes "Remove fs path = (e, fs')" "resolve path = child D name"
  shows "dir_entries fs' D = dir_entries fs D \<or>
         dir_entries fs' D = filter (\<lambda>e. fst e \<noteq> name) (dir_entries fs D)"
proof (cases e)
  case None
  with assms(1) have "fs' = fs\<lparr>nodes := AList.delete (resolve path) (nodes fs)\<rparr>"
    by (auto simp: Remove_def Let_def split: if_splits option.splits node.splits)
  then show ?thesis by (simp add: assms(2) dir_entries_delete)
next
  case (Some x)
  with assms(1) have "fs' = fs" using Remove_result(5) by blast
  then show ?thesis by simp
qed

lemma entry_versions_drop_meta:
  "suffix ''.meta'' m \<Longrightarrow> entry_versions (filter (\<lambda>e. fst e \<noteq> m) es) = entry_versions es"
  by (induction es rule: entry_versions.induct) (auto split: option.splits)

lemma entry_versions_drop_version:
  assumes "list_all canonical_entry es"
  shows "entry_versions (filter (\<lambda>e. fst e \<noteq> fmt_d (sint V)) es)
           = filter (\<lambda>x. x \<noteq> V) (entry_versions es)"
  using assms
proof (induction es rule: entry_versions.induct)
  case 1 show ?case by simp
next
  case (2 name isDir entries)
  from "2.prems" have c: "canonical_entry (name, isDir)" and r: "list_all canonical_entry entries"
    by simp_all
  show ?case
  proof (cases "isDir \<or> suffix ''.meta'' name")
    case True
    then show ?thesis using "2.IH"(1,2) r by auto
  next
    case False
    show ?thesis
    proof (cases "ParseInt name")
      case None
      then show ?thesis using False "2.IH"(3) r by auto
    next
      case (Some v)
      with c False have n: "name = fmt_d (sint v)" by (simp add: canonical_entry_def)
      have "name = fmt_d (sint V) \<longleftrightarrow> v = V" using n fmt_sint_inj by auto
      then show ?thesis using False Some "2.IH"(4)[OF _ _ Some] r by auto
    qed
  qed
qed

lemma fs_Delete_version_Versions:
  assumes "Validate req" and "Version req \<noteq> 0" and "fs_canonical rootDir fs req"
    and "fs_Versions rootDir fs req = Inr vs" and "fst (fs_Delete rootDir fs req) = None"
  shows "fs_Versions rootDir (snd (fs_Delete rootDir fs req)) req =
           (if filter (\<lambda>x. x \<noteq> Version req) vs = [] then Inl NotFoundError
            else Inr (filter (\<lambda>x. x \<noteq> Version req) vs))"
proof -
  let ?D = "resolve (buildDir rootDir (AppName req) (UserID req) (SessionID req) (FileName req))"
  let ?V = "Version req"
  let ?path = "buildPath rootDir (AppName req) (UserID req) (SessionID req) (FileName req) ?V"
  have a: "AppName req \<noteq> []" using assms(1) by (simp add: Validate_def)
  have rp: "resolve ?path = child ?D (fmt_d (sint ?V))"
    unfolding child_def by (rule resolve_buildPath[OF a])
  have rm: "resolve (?path @ ''.meta'') = child ?D (fmt_d (sint ?V) @ ''.meta'')"
    unfolding child_def by (rule resolve_buildPath_meta[OF a])
  obtain e fs1 where r1: "Remove fs ?path = (e, fs1)" by (cases "Remove fs ?path")
  obtain e2 fs2 where r2: "Remove fs1 (?path @ ''.meta'') = (e2, fs2)"
    by (cases "Remove fs1 (?path @ ''.meta'')")
  from assms(1,2,5) r1 r2 have e: "e = None \<or> e = Some ENOENT" and
    fs2: "snd (fs_Delete rootDir fs req) = fs2"
    by (auto simp: fs_Delete_def Let_def split: if_splits)
  note old = fs_Versions_Inr[OF assms(4)]
  have neD: "?D \<noteq> child ?D n" for n by (simp add: child_def prod_eq_iff)
  have d: "node_at fs2 ?D = Some Directory"
    using Remove_result(3)[OF r2, of ?D] Remove_result(3)[OF r1, of ?D] old(3) rp rm neD by simp
  have rd: "?D \<notin> set (read_denied fs2)"
    using Remove_result(1)[OF r2] Remove_result(1)[OF r1] old(2) by simp
  have e1: "dir_entries fs1 ?D = filter (\<lambda>e. fst e \<noteq> fmt_d (sint ?V)) (dir_entries fs ?D)"
    by (rule Remove_entries[OF r1 rp e])
  have "entry_versions (dir_entries fs2 ?D) = entry_versions (dir_entries fs1 ?D)"
    using Remove_entries_any[OF r2 rm] by (auto simp: entry_versions_drop_meta suffix_def)
  also have "\<dots> = filter (\<lambda>x. x \<noteq> ?V) (entry_versions (dir_entries fs ?D))"
    unfolding e1 using assms(3) by (intro entry_versions_drop_version) (simp add: fs_canonical_def)
  finally have ev: "entry_versions (dir_entries fs2 ?D)
      = filter (\<lambda>x. x \<noteq> ?V) (entry_versions (dir_entries fs ?D))" .
  have vs: "vs = sort_key sint (entry_versions (dir_entries fs ?D))"
    using assms(4) unfolding fs_Versions_readable[OF assms(1) old(2,3)]
    by (auto simp: Let_def split: if_splits)
  have fv: "filter (\<lambda>x. x \<noteq> ?V) vs = sort_key sint (entry_versions (dir_entries fs2 ?D))"
    unfolding vs ev by (rule filter_sort)
  show ?thesis
    unfolding fs2 fs_Versions_readable[OF assms(1) rd d] fv by (simp add: Let_def)
qed

subsection \<open>Deleting a whole artifact\<close>

lemma map_of_filter_not:
  "map_of (filter (\<lambda>(q, n). \<not> P q) xs) k = (if P k then None else map_of xs k)"
  by (induction xs) auto

lemma butlast_prefixes: "q \<in> set (butlast (prefixes xs)) \<longleftrightarrow> prefix q xs \<and> q \<noteq> xs"
proof (cases xs rule: rev_cases)
  case Nil then show ?thesis by auto
next
  case (snoc ys y)
  then show ?thesis by (auto simp: prefix_snoc)
qed

lemma absent_error_ENOENT:
  "absent_error fs l = ENOENT \<longleftrightarrow> (\<forall>q. prefix q (snd l) \<and> q \<noteq> snd l \<longrightarrow> \<not> is_file fs (fst l, q))"
  by (auto simp: absent_error_def list_ex_iff butlast_prefixes)

lemma RemoveAll_ok:
  assumes "RemoveAll fs path = (None, fs')"
  shows "read_denied fs' = read_denied fs"
    and "snd (resolve path) \<noteq> []"
    and "absent_error fs (resolve path) = ENOENT"
    and "node_at fs' q = (if below (resolve path) q then None else node_at fs q)"
proof -
  from assms have c: "snd (resolve path) \<noteq> []" "absent_error fs (resolve path) \<noteq> EOTHER"
      "fs' = fs\<lparr>nodes := filter (\<lambda>(q, n). \<not> below (resolve path) q) (nodes fs)\<rparr>"
    by (auto simp: RemoveAll_def Let_def split: if_splits)
  from c(1) show "snd (resolve path) \<noteq> []" .
  from c(2) show "absent_error fs (resolve path) = ENOENT"
    by (cases "absent_error fs (resolve path)") auto
  from c(3) show "read_denied fs' = read_denied fs" by simp
  have "\<not> below (resolve path) q" if "snd q = []"
    using that c(1) by (auto simp: below_def)
  with c(3) show "node_at fs' q = (if below (resolve path) q then None else node_at fs q)"
    by (auto simp: node_at_def map_of_filter_not)
qed

lemma fs_Delete_all_steps:
  assumes "Validate req" and "Version req = 0" and "fst (fs_Delete rootDir fs req) = None"
  shows "RemoveAll fs (buildDir rootDir (AppName req) (UserID req) (SessionID req) (FileName req))
           = (None, snd (fs_Delete rootDir fs req))"
  using assms by (auto simp: fs_Delete_def split: prod.splits option.splits)

lemma fs_Delete_all_Versions:
  assumes "Validate req" and "Version req = 0" and "fst (fs_Delete rootDir fs req) = None"
    and "resolve (buildDir rootDir (AppName req) (UserID req) (SessionID req) (FileName req))
           \<notin> set (read_denied fs)"
  shows "fs_Versions rootDir (snd (fs_Delete rootDir fs req)) req = Inl NotFoundError"
proof -
  let ?dir = "buildDir rootDir (AppName req) (UserID req) (SessionID req) (FileName req)"
  let ?fs' = "snd (fs_Delete rootDir fs req)"
  note r = RemoveAll_ok[OF fs_Delete_all_steps[OF assms(1,2,3)]]
  have n: "node_at ?fs' (resolve ?dir) = None" using r(4)[of "resolve ?dir"] by (simp add: below_def)
  have "\<not> is_file ?fs' (fst (resolve ?dir), q)" if "prefix q (snd (resolve ?dir))"
      "q \<noteq> snd (resolve ?dir)" for q
  proof -
    have "\<not> is_file fs (fst (resolve ?dir), q)" using r(3) that by (simp add: absent_error_ENOENT)
    then show ?thesis using r(4)[of "(fst (resolve ?dir), q)"]
      by (auto simp: is_file_def split: option.splits if_splits)
  qed
  then have "absent_error ?fs' (resolve ?dir) = ENOENT" by (simp add: absent_error_ENOENT)
  with n assms(1,4) r(1) show ?thesis
    by (simp add: fs_Versions_def ReadDir_def Let_def)
qed

lemma fs_Delete_all_Load:
  assumes "Validate req" and "Version req = 0" and "fst (fs_Delete rootDir fs req) = None"
    and "resolve (buildDir rootDir (AppName req) (UserID req) (SessionID req) (FileName req))
           \<notin> set (read_denied fs)"
    and "resolve (buildPath rootDir (AppName req) (UserID req) (SessionID req) (FileName req) v)
           \<notin> set (read_denied fs)"
  shows "fs_Load rootDir (snd (fs_Delete rootDir fs req)) (at_version req v) = Inl NotFoundError"
proof (cases "v = 0")
  case True
  with assms(1) fs_Delete_all_Versions[OF assms(1,2,3,4)] show ?thesis
    by (simp add: fs_Load_def fs_loadVersion_def)
next
  case False
  let ?dir = "buildDir rootDir (AppName req) (UserID req) (SessionID req) (FileName req)"
  let ?path = "buildPath rootDir (AppName req) (UserID req) (SessionID req) (FileName req) v"
  let ?fs' = "snd (fs_Delete rootDir fs req)"
  let ?D = "resolve ?dir"
  note r = RemoveAll_ok[OF fs_Delete_all_steps[OF assms(1,2,3)]]
  have a: "AppName req \<noteq> []" using assms(1) by (simp add: Validate_def)
  have rp: "resolve ?path = child ?D (fmt_d (sint v))"
    unfolding child_def by (rule resolve_buildPath[OF a])
  have n: "node_at ?fs' (resolve ?path) = None"
    using r(4)[of "resolve ?path"] by (simp add: rp below_def child_def)
  have "\<not> is_file ?fs' (fst (resolve ?path), q)" if q: "prefix q (snd (resolve ?path))"
      "q \<noteq> snd (resolve ?path)" for q
  proof (cases "q = snd ?D")
    case True
    then have "node_at ?fs' (fst (resolve ?path), q) = None"
      using r(4)[of ?D] by (simp add: rp below_def child_def)
    then show ?thesis by (simp add: is_file_def)
  next
    case False
    with q have "prefix q (snd ?D)" by (auto simp: rp child_def prefix_snoc)
    with False have "\<not> is_file fs (fst ?D, q)" using r(3) by (simp add: absent_error_ENOENT)
    then show ?thesis using r(4)[of "(fst ?D, q)"]
      by (auto simp: rp child_def is_file_def split: option.splits if_splits)
  qed
  then have "absent_error ?fs' (resolve ?path) = ENOENT" by (simp add: absent_error_ENOENT)
  with n assms(1,5) r(1) False show ?thesis
    by (simp add: fs_Load_def fs_loadVersion_def ReadFile_def Let_def)
qed

subsection \<open>Deleting from the bucket\<close>

lemma listing_delete:
  "sort (remdups (filter P (map fst (AList.delete key al))))
     = filter (\<lambda>k. k \<noteq> key) (sort (remdups (filter P (map fst al))))"
proof -
  have sw: "filter P (filter (\<lambda>k. k \<noteq> key) ys) = filter (\<lambda>k. k \<noteq> key) (filter P ys)" for ys
    by (induction ys) auto
  have "sort (remdups (filter P (map fst (AList.delete key al))))
      = sort (filter (\<lambda>k. k \<noteq> key) (remdups (filter P (map fst al))))"
    by (simp only: map_fst_delete sw remdups_filter)
  also have "\<dots> = filter (\<lambda>k. k \<noteq> key) (sort (remdups (filter P (map fst al))))"
    by (rule filter_sort[symmetric])
  finally show ?thesis .
qed

lemma buildKey_version_inj: "buildKey a u s f v = buildKey a u s f w \<Longrightarrow> v = w"
  by (metis ParseInt_buildKey option.inject)

lemma key_versions_drop:
  assumes "list_all (canonical_key req) keys"
  shows "key_versions (filter (\<lambda>k. k \<noteq>
            buildKey (AppName req) (UserID req) (SessionID req) (FileName req) V) keys)
           = filter (\<lambda>x. x \<noteq> V) (key_versions keys)"
  using assms
proof (induction keys)
  case Nil show ?case by simp
next
  case (Cons k ks)
  then have c: "canonical_key req k" and ih: "key_versions (filter (\<lambda>k. k \<noteq>
            buildKey (AppName req) (UserID req) (SessionID req) (FileName req) V) ks)
           = filter (\<lambda>x. x \<noteq> V) (key_versions ks)"
    by simp_all
  show ?case
  proof (cases "ParseInt (last (split_sep k))")
    case None
    then have "k \<noteq> buildKey (AppName req) (UserID req) (SessionID req) (FileName req) V"
      using ParseInt_buildKey by force
    with None ih show ?thesis by simp
  next
    case (Some v)
    with c have k: "k = buildKey (AppName req) (UserID req) (SessionID req) (FileName req) v"
      by (simp add: canonical_key_def)
    have "k = buildKey (AppName req) (UserID req) (SessionID req) (FileName req) V \<longleftrightarrow> v = V"
      using k buildKey_version_inj by auto
    with Some ih show ?thesis by auto
  qed
qed

lemma s3_canonical_listing:
  assumes "s3_canonical b req"
  shows "list_all (canonical_key req)
           (sort (remdups (filter (prefix (buildKeyPrefix (AppName req) (UserID req)
              (SessionID req) (FileName req))) (map fst (objects b)))))"
  using assms by (simp add: s3_canonical_def list_all_iff)

lemma s3_Delete_version_Versions:
  assumes "Validate req" and "Version req \<noteq> 0" and "s3_canonical b req"
    and "s3_Versions b req = Inr vs" and "fst (s3_Delete b req) = None"
  shows "s3_Versions (snd (s3_Delete b req)) req =
           (if filter (\<lambda>x. x \<noteq> Version req) vs = [] then Inl NotFoundError
            else Inr (filter (\<lambda>x. x \<noteq> Version req) vs))"
proof -
  let ?pfx = "buildKeyPrefix (AppName req) (UserID req) (SessionID req) (FileName req)"
  let ?key = "buildKey (AppName req) (UserID req) (SessionID req) (FileName req) (Version req)"
  let ?keys = "sort (remdups (filter (prefix ?pfx) (map fst (objects b))))"
  let ?b' = "snd (s3_Delete b req)"
  from assms(4) have old: "s3_versions b req = Inr vs"
    by (auto simp: s3_Versions_def split: sum.splits if_splits)
  then have nf: "?pfx \<notin> set (list_fails b)" and vs: "vs = key_versions ?keys"
    using assms(1) by (auto simp: s3_versions_cases split: if_splits)
  have b': "list_fails ?b' = list_fails b \<and>
      sort (remdups (filter (prefix ?pfx) (map fst (objects ?b'))))
        = filter (\<lambda>k. k \<noteq> ?key) ?keys"
  proof (cases "bucket_Delete b ?key")
    case (Inr b1)
    then have "b1 = b\<lparr>objects := AList.delete ?key (objects b)\<rparr>"
      by (auto simp: bucket_Delete_def split: if_splits option.splits)
    moreover have "?b' = b1" using Inr assms(1,2) by (simp add: s3_Delete_def)
    ultimately show ?thesis by (simp add: listing_delete)
  next
    case (Inl e)
    with assms(1,2,5) have e: "e = NotFound" and same: "?b' = b"
      by (cases e; simp add: s3_Delete_def)+
    with Inl have "map_of (objects b) ?key = None"
      by (auto simp: bucket_Delete_def split: if_splits option.splits)
    then have "?key \<notin> fst ` set (objects b)" by (simp add: map_of_eq_None_iff)
    moreover have "set ?keys \<subseteq> fst ` set (objects b)" by auto
    ultimately have "?key \<notin> set ?keys" by blast
    then have "\<forall>k\<in>set ?keys. k \<noteq> ?key" by blast
    then have "filter (\<lambda>k. k \<noteq> ?key) ?keys = ?keys" by (rule filter_True)
    with same show ?thesis by simp
  qed
  have "key_versions (filter (\<lambda>k. k \<noteq> ?key) ?keys) = filter (\<lambda>x. x \<noteq> Version req) vs"
    unfolding vs by (rule key_versions_drop[OF s3_canonical_listing[OF assms(3)]])
  with b' nf assms(1) show ?thesis
    by (simp add: s3_Versions_def s3_versions_cases)
qed

lemma bucket_Delete_result:
  assumes "bucket_Delete b key = Inr b'"
  shows "map_of (objects b') = (map_of (objects b))(key := None)"
    and "list_fails b' = list_fails b" and "read_fails b' = read_fails b"
  using assms by (auto simp: bucket_Delete_def delete_conv' split: if_splits option.splits)

lemma delete_all_result:
  assumes "delete_all b keys = (None, b')"
  shows "map_of (objects b') k = (if k \<in> set keys then None else map_of (objects b) k) \<and>
         list_fails b' = list_fails b \<and> read_fails b' = read_fails b"
  using assms
proof (induction keys arbitrary: b)
  case Nil then show ?case by simp
next
  case (Cons key keys)
  show ?case
  proof (cases "bucket_Delete b key")
    case (Inr b1)
    with Cons.prems have "delete_all b1 keys = (None, b')" by simp
    from Cons.IH[OF this] bucket_Delete_result[OF Inr] show ?thesis by auto
  next
    case (Inl e)
    with Cons.prems have e: "e = NotFound" and d: "delete_all b keys = (None, b')"
      by (cases e; simp)+
    from Inl e have "map_of (objects b) key = None"
      by (auto simp: bucket_Delete_def split: if_splits option.splits)
    with Cons.IH[OF d] show ?thesis by auto
  qed
qed

lemma s3_Delete_all_listed:
  assumes "Validate req" and "Version req = 0" and "s3_canonical b req"
    and "fst (s3_Delete b req) = None"
  shows "listed_versions (snd (s3_Delete b req))
           (buildKeyPrefix (AppName req) (UserID req) (SessionID req) (FileName req)) = {}"
    and "list_fails (snd (s3_Delete b req)) = list_fails b"
    and "read_fails (snd (s3_Delete b req)) = read_fails b"
    and "buildKeyPrefix (AppName req) (UserID req) (SessionID req) (FileName req)
           \<notin> set (list_fails b)"
proof -
  let ?pfx = "buildKeyPrefix (AppName req) (UserID req) (SessionID req) (FileName req)"
  let ?bk = "buildKey (AppName req) (UserID req) (SessionID req) (FileName req)"
  let ?b' = "snd (s3_Delete b req)"
  from assms(1,2,4) obtain vs where vs: "s3_versions b req = Inr vs"
      and d: "delete_all b (map ?bk vs) = (None, ?b')"
    by (cases "s3_versions b req"; cases "delete_all b (map ?bk (projr (s3_versions b req)))")
       (auto simp: s3_Delete_def)
  note r = delete_all_result[OF d]
  from r show "list_fails ?b' = list_fails b" "read_fails ?b' = read_fails b" by auto
  from vs assms(1) show "?pfx \<notin> set (list_fails b)"
    by (auto simp: s3_versions_cases split: if_splits)
  show "listed_versions ?b' ?pfx = {}"
  proof (rule ccontr)
    assume "listed_versions ?b' ?pfx \<noteq> {}"
    then obtain x k where k: "map_of (objects ?b') k \<noteq> None" "prefix ?pfx k"
        "ParseInt (last (split_sep k)) = Some x"
      by (auto simp: listed_versions_def)
    from k(1) r[of k] have nk: "k \<notin> set (map ?bk vs)" and pk: "map_of (objects b) k \<noteq> None"
      by (auto split: if_splits)
    from pk k(2,3) have "x \<in> listed_versions b ?pfx" unfolding listed_versions_def by blast
    then have xv: "x \<in> set vs" using s3_versions_set[OF vs] by simp
    from pk k(2) have "k \<in> set (filter (prefix ?pfx) (map fst (objects b)))"
      by (auto simp: map_of_eq_None_iff)
    with assms(3) have "canonical_key req k" by (simp add: s3_canonical_def list_all_iff)
    with k(3) have "k = ?bk x" by (simp add: canonical_key_def)
    with xv nk show False by simp
  qed
qed

lemma s3_Delete_all_Versions:
  assumes "Validate req" and "Version req = 0" and "s3_canonical b req"
    and "fst (s3_Delete b req) = None"
  shows "s3_Versions (snd (s3_Delete b req)) req = Inl NotFoundError"
    and "s3_versions (snd (s3_Delete b req)) req = Inr []"
proof -
  let ?b' = "snd (s3_Delete b req)"
  note l = s3_Delete_all_listed[OF assms]
  from l(2,4) assms(1) obtain vs' where v: "s3_versions ?b' req = Inr vs'"
    by (simp add: s3_versions_cases)
  from s3_versions_set[OF v] l(1) have "vs' = []" by simp
  with v show "s3_versions ?b' req = Inr []" by simp
  then show "s3_Versions ?b' req = Inl NotFoundError" by (simp add: s3_Versions_def)
qed

lemma s3_Delete_all_Load:
  assumes "Validate req" and "Version req = 0" and "s3_canonical b req"
    and "fst (s3_Delete b req) = None"
    and "buildKey (AppName req) (UserID req) (SessionID req) (FileName req) v
           \<notin> set (read_fails b)"
  shows "s3_Load (snd (s3_Delete b req)) (at_version req v) = Inl NotFoundError"
proof (cases "v = 0")
  case True
  with assms(1) s3_Delete_all_Versions(2)[OF assms(1,2,3,4)] show ?thesis
    by (simp add: s3_Load_def s3_loadVersion_def)
next
  case False
  let ?pfx = "buildKeyPrefix (AppName req) (UserID req) (SessionID req) (FileName req)"
  let ?key = "buildKey (AppName req) (UserID req) (SessionID req) (FileName req) v"
  let ?b' = "snd (s3_Delete b req)"
  note l = s3_Delete_all_listed[OF assms(1,2,3,4)]
  have "map_of (objects ?b') ?key = None"
  proof (rule ccontr)
    assume "map_of (objects ?b') ?key \<noteq> None"
    moreover have "prefix ?pfx ?key" by (simp add: buildKey_prefix)
    moreover have "ParseInt (last (split_sep ?key)) = Some v" by (rule ParseInt_buildKey)
    ultimately have "v \<in> listed_versions ?b' ?pfx" unfolding listed_versions_def by blast
    with l(1) show False by simp
  qed
  with assms(1,5) l(3) False show ?thesis
    by (simp add: s3_Load_def s3_loadVersion_def bucket_Read_def)
qed

subsection \<open>What a delete removes\<close>




end
